theory Spec2Isabelle
  imports Main "HOL-Library.AList"
begin

section \<open>The content script (content.js) as a state machine\<close>

text \<open>
  The content script is single-threaded: every piece of code runs to its next
  \<^verbatim>\<open>await\<close> without interruption. The model keeps the script's globals in one
  record, writes each source function as a function on that record, and cuts every
  \<^verbatim>\<open>async\<close> function at its \<^verbatim>\<open>await\<close>s: the part after an \<^verbatim>\<open>await\<close> is a
  function of its own, started by the timer or the promise that the source awaits.
  \<^verbatim>\<open>Date.now()\<close> is the field \<open>clock\<close>, set by the environment at the start of each
  event.
\<close>

subsection \<open>Data\<close>

text \<open>A location is a string or \<^verbatim>\<open>null\<close> (\<open>None\<close>).\<close>

type_synonym location = "string option"

text \<open>One value of the object stored under \<^verbatim>\<open>twitter_location_cache\<close>.\<close>

record cache_entry =
  location :: location
  expiry :: int
  cachedAt :: int

text \<open>The values of \<^verbatim>\<open>dataset.flagAdded\<close>; the attribute may also be absent.\<close>

datatype flag_state = Processing | Waiting | FlagTrue | Failed

text \<open>
  A container that \<^verbatim>\<open>processUsernames\<close> selects. The DOM heuristics are not
  modelled: \<open>extractUsername\<close> is what \<^verbatim>\<open>extractUsername(element)\<close> returns,
  \<open>userNameContainer\<close> says whether the element has a descendant with
  \<^verbatim>\<open>data-testid\<close> \<^verbatim>\<open>UserName\<close> or \<^verbatim>\<open>User-Name\<close>, \<open>twitterFlag\<close> and
  \<open>twitterFlagShimmer\<close> say whether it contains a \<^verbatim>\<open>[data-twitter-flag]\<close> span and a
  \<^verbatim>\<open>[data-twitter-flag-shimmer]\<close> span (the script inserts both kinds only inside
  such a container). The handle of an element is taken as fixed, and elements stay in
  the document.
\<close>

record element =
  extractUsername :: "string option"
  flagAdded :: "flag_state option"
  userNameContainer :: bool
  twitterFlag :: bool
  twitterFlagShimmer :: bool

text \<open>
  The continuation of \<^verbatim>\<open>addFlagToUsername\<close> suspended at
  \<^verbatim>\<open>await getUserLocation(screenName)\<close>: its element (an index into the document),
  its handle and its local \<^verbatim>\<open>shimmerInserted\<close>.
\<close>

record waiter =
  usernameElement :: nat
  screenName :: string
  shimmerInserted :: bool

text \<open>What the awaited promise settles with.\<close>

datatype settled = Resolved location | Rejected

text \<open>An entry of \<^verbatim>\<open>requestQueue\<close>; \<open>q_resolve\<close> stands for the pair resolve/reject.\<close>

record queued_request =
  q_screenName :: string
  q_resolve :: waiter

text \<open>
  A pending promise of \<^verbatim>\<open>makeLocationRequest\<close> with its registered message
  handler. \<^verbatim>\<open>Date.now() + Math.random()\<close> is modelled as a fresh number.
\<close>

record bridge_request =
  requestId :: nat
  b_screenName :: string
  b_resolve :: waiter

text \<open>The callbacks that the script passes to \<^verbatim>\<open>setTimeout\<close> and \<^verbatim>\<open>setInterval\<close>.\<close>

datatype timer =
    ProcessQueueTimer
  | LoopDelay
  | BridgeTimeout nat
  | WaitingDelay nat
  | SaveDebounce
  | ScanTimer
  | FlushInterval

record state =
  clock :: int
  contextValid :: bool
  storageToggle :: "bool option"
  storageCache :: "(string \<times> cache_entry) list option"
  locationCache :: "(string \<times> location) list"
  requestQueue :: "queued_request list"
  isProcessingQueue :: bool
  lastRequestTime :: int
  activeRequests :: int
  rateLimitResetTime :: int
  extensionEnabled :: bool
  processingUsernames :: "string set"
  saveCacheTimeout :: bool
  pageScriptInjected :: bool
  observing :: bool
  document :: "element list"
  timers :: "(int \<times> timer) list"
  listeners :: "bridge_request list"
  nextRequestId :: nat
  posted :: "(int \<times> string \<times> nat) list"
  microtasks :: "(waiter \<times> settled) list"

text \<open>
  \<open>timers\<close> holds the pending timers with their due times, \<open>listeners\<close> the pending
  bridge promises, \<open>microtasks\<close> the continuations whose promise has settled and that
  run before the current event ends. \<open>posted\<close> is the history of
  \<^verbatim>\<open>window.postMessage({type: '__fetchLocation', ...})\<close>, newest first, with the
  time of each call.
\<close>

definition CACHE_EXPIRY_DAYS :: int where
  "CACHE_EXPIRY_DAYS = 30"

definition MIN_REQUEST_INTERVAL :: int where
  "MIN_REQUEST_INTERVAL = 2000"

definition MAX_CONCURRENT_REQUESTS :: int where
  "MAX_CONCURRENT_REQUESTS = 2"

definition DEFAULT_ENABLED :: bool where
  "DEFAULT_ENABLED = True"

text \<open>The globals as the script's top level leaves them.\<close>

definition initial ::
  "int \<Rightarrow> bool option \<Rightarrow> (string \<times> cache_entry) list option \<Rightarrow> element list \<Rightarrow> state" where
  "initial t tog stored doc =
     \<lparr>clock = t, contextValid = True, storageToggle = tog, storageCache = stored,
      locationCache = [], requestQueue = [], isProcessingQueue = False,
      lastRequestTime = 0, activeRequests = 0, rateLimitResetTime = 0,
      extensionEnabled = True, processingUsernames = {}, saveCacheTimeout = False,
      pageScriptInjected = False, observing = False, document = doc, timers = [],
      listeners = [], nextRequestId = 0, posted = [], microtasks = []\<rparr>"

definition setTimeout :: "timer \<Rightarrow> int \<Rightarrow> state \<Rightarrow> state" where
  "setTimeout k d s = s\<lparr>timers := timers s @ [(clock s + d, k)]\<rparr>"

text \<open>\<^verbatim>\<open>location || null\<close>: the empty string is falsy.\<close>

definition or_null :: "location \<Rightarrow> location" where
  "or_null l = (case l of None \<Rightarrow> None | Some v \<Rightarrow> if v = [] then None else Some v)"

subsection \<open>Location cache\<close>

definition loadEnabledState :: "state \<Rightarrow> state" where
  "loadEnabledState s =
     s\<lparr>extensionEnabled := (case storageToggle s of Some b \<Rightarrow> b | None \<Rightarrow> DEFAULT_ENABLED)\<rparr>"

definition loadEntry :: "int \<Rightarrow> (string \<times> location) list \<Rightarrow> string \<times> cache_entry
    \<Rightarrow> (string \<times> location) list" where
  "loadEntry now c e =
     (case e of (username, d) \<Rightarrow>
        if expiry d \<noteq> 0 \<and> expiry d > now \<and> location d \<noteq> None
        then AList.update username (location d) c else c)"

definition loadCache :: "state \<Rightarrow> state" where
  "loadCache s =
     (if \<not> contextValid s then s
      else case storageCache s of
             None \<Rightarrow> s
           | Some cached \<Rightarrow>
               s\<lparr>locationCache := foldl (loadEntry (clock s)) (locationCache s) cached\<rparr>)"

text \<open>
  The keys of a \<^verbatim>\<open>Map\<close> are distinct, so each pass of the loop creates one property
  of \<^verbatim>\<open>cacheObj\<close>.
\<close>

definition saveCache :: "state \<Rightarrow> state" where
  "saveCache s =
     (if \<not> contextValid s then s
      else
        let now = clock s;
            exp = now + CACHE_EXPIRY_DAYS * 24 * 60 * 60 * 1000;
            cacheObj = map (\<lambda>(username, loc).
                          (username, \<lparr>location = loc, expiry = exp, cachedAt = now\<rparr>))
                        (locationCache s)
        in s\<lparr>storageCache := Some cacheObj\<rparr>)"

definition saveCacheEntry :: "string \<Rightarrow> location \<Rightarrow> state \<Rightarrow> state" where
  "saveCacheEntry username loc s =
     (if \<not> contextValid s then s
      else
        let s1 = s\<lparr>locationCache := AList.update username loc (locationCache s)\<rparr>
        in if \<not> saveCacheTimeout s1
           then setTimeout SaveDebounce 5000 (s1\<lparr>saveCacheTimeout := True\<rparr>)
           else s1)"

text \<open>The callback of the 5-second timer set by \<^verbatim>\<open>saveCacheEntry\<close>.\<close>

definition saveDebounced :: "state \<Rightarrow> state" where
  "saveDebounced s = (saveCache s)\<lparr>saveCacheTimeout := False\<rparr>"

subsection \<open>Request queue and page bridge\<close>

text \<open>
  \<^verbatim>\<open>makeLocationRequest\<close> up to the end of the promise executor: it registers the
  handler, posts the request and arms the 10-second timer.
\<close>

definition makeLocationRequest :: "string \<Rightarrow> waiter \<Rightarrow> state \<Rightarrow> state" where
  "makeLocationRequest name w s =
     (let rid = nextRequestId s;
          s1 = s\<lparr>nextRequestId := Suc rid,
                 listeners := listeners s @ [\<lparr>requestId = rid, b_screenName = name, b_resolve = w\<rparr>],
                 posted := (clock s, name, rid) # posted s\<rparr>
      in setTimeout (BridgeTimeout rid) 10000 s1)"

text \<open>
  The promise of \<^verbatim>\<open>makeLocationRequest\<close> settles: the \<^verbatim>\<open>then\<close> callback resolves
  the promise that \<^verbatim>\<open>getUserLocation\<close> returned (its awaiter becomes a microtask),
  and the \<^verbatim>\<open>finally\<close> callback releases the slot and re-triggers the queue.
\<close>

definition settle :: "bridge_request \<Rightarrow> location \<Rightarrow> state \<Rightarrow> state" where
  "settle r v s =
     setTimeout ProcessQueueTimer 200
       (s\<lparr>listeners := remove1 r (listeners s),
          microtasks := microtasks s @ [(b_resolve r, Resolved v)],
          activeRequests := activeRequests s - 1\<rparr>)"

text \<open>The message handler of one request, for a message that correlates with it.\<close>

definition handler :: "bridge_request \<Rightarrow> location \<Rightarrow> bool \<Rightarrow> state \<Rightarrow> state" where
  "handler r loc isRateLimited s =
     (let s1 = (if \<not> isRateLimited then saveCacheEntry (b_screenName r) (or_null loc) s else s)
      in settle r (or_null loc) s1)"

text \<open>A \<^verbatim>\<open>__locationResponse\<close> message arrives on the window.\<close>

definition onLocationResponse :: "string \<Rightarrow> nat \<Rightarrow> location \<Rightarrow> bool \<Rightarrow> state \<Rightarrow> state" where
  "onLocationResponse name rid loc isRateLimited s =
     (case find (\<lambda>r. b_screenName r = name \<and> requestId r = rid) (listeners s) of
        None \<Rightarrow> s
      | Some r \<Rightarrow> handler r loc isRateLimited s)"

text \<open>
  The 10-second timer of a request fires: the handler is removed and
  \<^verbatim>\<open>resolve(null)\<close> is called, which does nothing on a settled promise.
\<close>

definition bridgeTimeout :: "nat \<Rightarrow> state \<Rightarrow> state" where
  "bridgeTimeout rid s =
     (case find (\<lambda>r. requestId r = rid) (listeners s) of
        None \<Rightarrow> s
      | Some r \<Rightarrow> settle r None s)"

text \<open>
  One dispatch of the loop body after the wait: the counter and the time stamp are
  updated and the request is fired.
\<close>

definition send :: "queued_request \<Rightarrow> state \<Rightarrow> state" where
  "send r s =
     makeLocationRequest (q_screenName r) (q_resolve r)
       (s\<lparr>activeRequests := activeRequests s + 1, lastRequestTime := clock s\<rparr>)"

function processLoop :: "state \<Rightarrow> state" where
  "processLoop s =
     (if requestQueue s \<noteq> [] \<and> activeRequests s < MAX_CONCURRENT_REQUESTS then
        (let now = clock s;
             timeSinceLastRequest = now - lastRequestTime s
         in if timeSinceLastRequest < MIN_REQUEST_INTERVAL
            then setTimeout LoopDelay (MIN_REQUEST_INTERVAL - timeSinceLastRequest) s
            else (case requestQueue s of
                    [] \<Rightarrow> s
                  | r # rest \<Rightarrow> processLoop (send r (s\<lparr>requestQueue := rest\<rparr>))))
      else s\<lparr>isProcessingQueue := False\<rparr>)"
  by pat_completeness auto
termination
  by (relation "measure (\<lambda>s. length (requestQueue s))")
     (auto simp: send_def makeLocationRequest_def setTimeout_def Let_def)

declare processLoop.simps [simp del]

text \<open>
  The loop continues after its wait. \<^verbatim>\<open>requestQueue.shift()\<close> on an empty queue
  returns \<^verbatim>\<open>undefined\<close> and the destructuring throws: the loop stops where it is.
\<close>

definition afterLoopDelay :: "state \<Rightarrow> state" where
  "afterLoopDelay s =
     (case requestQueue s of
        [] \<Rightarrow> s
      | r # rest \<Rightarrow> processLoop (send r (s\<lparr>requestQueue := rest\<rparr>)))"

definition processRequestQueue :: "state \<Rightarrow> state" where
  "processRequestQueue s =
     (if isProcessingQueue s \<or> requestQueue s = [] then s
      else if rateLimitResetTime s > 0 \<and> clock s div 1000 < rateLimitResetTime s then
        (let now = clock s div 1000;
             waitTime = (rateLimitResetTime s - now) * 1000
         in setTimeout ProcessQueueTimer (min waitTime 60000) s)
      else
        processLoop
          ((if rateLimitResetTime s > 0 then s\<lparr>rateLimitResetTime := 0\<rparr> else s)
             \<lparr>isProcessingQueue := True\<rparr>))"

text \<open>What \<^verbatim>\<open>getUserLocation\<close> hands back before anything is awaited.\<close>

datatype lookup = Returned string | Pending

definition getUserLocation :: "string \<Rightarrow> waiter \<Rightarrow> state \<Rightarrow> lookup \<times> state" where
  "getUserLocation name w s =
     (case map_of (locationCache s) name of
        Some (Some cached) \<Rightarrow> (Returned cached, s)
      | Some None \<Rightarrow>
          (Pending,
           processRequestQueue
             (s\<lparr>locationCache := AList.delete name (locationCache s),
                requestQueue := requestQueue s @ [\<lparr>q_screenName = name, q_resolve = w\<rparr>]\<rparr>))
      | None \<Rightarrow>
          (Pending,
           processRequestQueue
             (s\<lparr>requestQueue := requestQueue s @ [\<lparr>q_screenName = name, q_resolve = w\<rparr>]\<rparr>)))"

subsection \<open>Annotator\<close>

text \<open>
  Elements are named by their index in \<open>document\<close>; the host page only adds
  elements, so the index of an element never changes.
\<close>

definition setFlagAdded :: "nat \<Rightarrow> flag_state option \<Rightarrow> state \<Rightarrow> state" where
  "setFlagAdded el v s = s\<lparr>document := (document s)[el := (document s ! el)\<lparr>flagAdded := v\<rparr>]\<rparr>"

definition setShimmer :: "nat \<Rightarrow> bool \<Rightarrow> state \<Rightarrow> state" where
  "setShimmer el v s =
     s\<lparr>document := (document s)[el := (document s ! el)\<lparr>twitterFlagShimmer := v\<rparr>]\<rparr>"

definition setTwitterFlag :: "nat \<Rightarrow> bool \<Rightarrow> state \<Rightarrow> state" where
  "setTwitterFlag el v s =
     s\<lparr>document := (document s)[el := (document s ! el)\<lparr>twitterFlag := v\<rparr>]\<rparr>"

text \<open>
  \<^verbatim>\<open>addFlagToUsername\<close> up to its first \<^verbatim>\<open>await\<close>: the 500 ms wait of a duplicate,
  or the lookup. A lookup answered from the cache is an already resolved promise, whose
  awaiter is a microtask.
\<close>

definition addFlagToUsername :: "nat \<Rightarrow> string \<Rightarrow> state \<Rightarrow> state" where
  "addFlagToUsername el name s =
     (if flagAdded (document s ! el) = Some FlagTrue then s
      else if name \<in> processingUsernames s then setTimeout (WaitingDelay el) 500 s
      else
        let s1 = setFlagAdded el (Some Processing) s;
            s2 = s1\<lparr>processingUsernames := insert name (processingUsernames s1)\<rparr>;
            inserted = userNameContainer (document s2 ! el);
            s3 = (if inserted then setShimmer el True s2 else s2);
            w = \<lparr>usernameElement = el, screenName = name, shimmerInserted = inserted\<rparr>
        in case getUserLocation name w s3 of
             (Returned cached, s4) \<Rightarrow>
               s4\<lparr>microtasks := microtasks s4 @ [(w, Resolved (Some cached))]\<rparr>
           | (Pending, s4) \<Rightarrow> s4)"

text \<open>The duplicate's branch after its 500 ms.\<close>

definition afterWaiting :: "nat \<Rightarrow> state \<Rightarrow> state" where
  "afterWaiting el s =
     (if flagAdded (document s ! el) = Some FlagTrue then s
      else setFlagAdded el (Some Waiting) s)"

text \<open>
  The loop over \<^verbatim>\<open>document.querySelectorAll('[data-flag-added="waiting"]')\<close>: the
  node list is taken once, before the first call.
\<close>

definition redrive :: "string \<Rightarrow> state \<Rightarrow> state" where
  "redrive name s =
     fold (\<lambda>el s'. if extractUsername (document s' ! el) = Some name
                    then addFlagToUsername el name s' else s')
          (filter (\<lambda>el. flagAdded (document s ! el) = Some Waiting) [0..<length (document s)])
          s"

text \<open>
  \<^verbatim>\<open>addFlagToUsername\<close> from the settling of the awaited promise to its end: the
  \<^verbatim>\<open>try\<close> body after the \<^verbatim>\<open>await\<close>, the \<^verbatim>\<open>catch\<close> block when the promise is
  rejected, and the \<^verbatim>\<open>finally\<close> block. \<^verbatim>\<open>getCountryFlag\<close> is defined in another
  file of the extension and is a parameter here; \<open>None\<close> is a falsy result.
\<close>

definition afterLookup :: "(string \<Rightarrow> string option) \<Rightarrow> waiter \<Rightarrow> settled \<Rightarrow> state \<Rightarrow> state" where
  "afterLookup getCountryFlag w r s =
     (let el = usernameElement w;
          name = screenName w;
          s1 = (if shimmerInserted w \<and> twitterFlagShimmer (document s ! el)
                then setShimmer el False s else s);
          s2 = (case r of
                  Rejected \<Rightarrow> setFlagAdded el (Some Failed) s1
                | Resolved loc \<Rightarrow>
                    (case or_null loc of
                       None \<Rightarrow> setFlagAdded el (Some Failed) s1
                     | Some l \<Rightarrow>
                         (case getCountryFlag l of
                            None \<Rightarrow> setFlagAdded el (Some Failed) s1
                          | Some flag \<Rightarrow>
                              if twitterFlag (document s1 ! el)
                              then setFlagAdded el (Some FlagTrue) s1
                              else if \<not> userNameContainer (document s1 ! el)
                              then setFlagAdded el (Some Failed) s1
                              else redrive name
                                     (setFlagAdded el (Some FlagTrue)
                                        (setTwitterFlag el True s1)))))
      in s2\<lparr>processingUsernames := processingUsernames s2 - {name}\<rparr>)"

text \<open>\<^verbatim>\<open>!status || status === 'failed'\<close>\<close>

definition eligible :: "flag_state option \<Rightarrow> bool" where
  "eligible status = (status = None \<or> status = Some Failed)"

definition processUsernames :: "state \<Rightarrow> state" where
  "processUsernames s =
     (if \<not> extensionEnabled s then s
      else
        fold (\<lambda>el s'. case extractUsername (document s' ! el) of
                         None \<Rightarrow> s'
                       | Some name \<Rightarrow>
                           if eligible (flagAdded (document s' ! el))
                           then addFlagToUsername el name s' else s')
             [0..<length (document s)] s)"

definition removeAllFlags :: "state \<Rightarrow> state" where
  "removeAllFlags s =
     (let d1 = map (\<lambda>e. e\<lparr>twitterFlag := False\<rparr>) (document s);
          d2 = map (\<lambda>e. e\<lparr>twitterFlagShimmer := False\<rparr>) d1;
          d3 = map (\<lambda>e. e\<lparr>flagAdded := None\<rparr>) d2
      in s\<lparr>document := d3\<rparr>)"

text \<open>The listener of \<^verbatim>\<open>runtime.runtime.onMessage\<close>.\<close>

definition onMessage :: "string \<Rightarrow> bool \<Rightarrow> state \<Rightarrow> state" where
  "onMessage type enabled s =
     (if type = ''extensionToggle'' then
        (let s1 = s\<lparr>extensionEnabled := enabled\<rparr>
         in if extensionEnabled s1 then setTimeout ScanTimer 500 s1 else removeAllFlags s1)
      else s)"

text \<open>The \<^verbatim>\<open>__rateLimitInfo\<close> listener that \<^verbatim>\<open>injectPageScript\<close> installs.\<close>

definition onRateLimitInfo :: "int \<Rightarrow> state \<Rightarrow> state" where
  "onRateLimitInfo resetTime s =
     (if pageScriptInjected s then s\<lparr>rateLimitResetTime := resetTime\<rparr> else s)"

definition init :: "state \<Rightarrow> state" where
  "init s =
     (let s1 = loadEnabledState s;
          s2 = loadCache s1
      in if \<not> extensionEnabled s2 then s2
         else
           (let s3 = s2\<lparr>pageScriptInjected := True\<rparr>;
                s4 = setTimeout ScanTimer 2000 s3;
                s5 = s4\<lparr>observing := True\<rparr>
            in setTimeout FlushInterval 30000 s5))"

text \<open>
  The two mutation observers. \<open>onDomAdded\<close> is the callback of the first for a batch
  of mutations with added nodes, of which \<open>els\<close> are the containers that the scan
  selects (there may be none: the script's own spans are added nodes too).
\<close>

definition onDomAdded :: "element list \<Rightarrow> state \<Rightarrow> state" where
  "onDomAdded els s =
     (let s1 = s\<lparr>document := document s @ els\<rparr>
      in if observing s1 \<and> extensionEnabled s1
         then setTimeout ScanTimer 500 s1 else s1)"

definition onUrlChanged :: "state \<Rightarrow> state" where
  "onUrlChanged s = (if observing s then setTimeout ScanTimer 2000 s else s)"

subsection \<open>Microtasks\<close>

text \<open>
  After each event the settled continuations run until none is left. A continuation
  may start \<^verbatim>\<open>addFlagToUsername\<close> for waiting elements, which may add continuations;
  the run ends because each of those elements leaves the \<open>Waiting\<close> state.
\<close>

definition flagStates :: "state \<Rightarrow> flag_state option list" where
  "flagStates s = map flagAdded (document s)"

definition waitingCount :: "state \<Rightarrow> nat" where
  "waitingCount s = length (filter (\<lambda>v. v = Some Waiting) (flagStates s))"

definition drainMeasure :: "state \<Rightarrow> nat" where
  "drainMeasure s = 2 * waitingCount s + length (microtasks s)"

lemma map_update_same: "(map f xs)[i := f (xs ! i)] = map f xs"
  by (cases "i < length xs") (simp_all add: list_update_same_conv list_update_beyond)

lemma flagStates_setFlagAdded [simp]:
  "flagStates (setFlagAdded el v s) = (flagStates s)[el := v]"
  by (simp add: flagStates_def setFlagAdded_def map_update)

lemma flagStates_setShimmer [simp]: "flagStates (setShimmer el v s) = flagStates s"
  by (simp add: flagStates_def setShimmer_def map_update map_update_same)

lemma flagStates_setTwitterFlag [simp]: "flagStates (setTwitterFlag el v s) = flagStates s"
  by (simp add: flagStates_def setTwitterFlag_def map_update map_update_same)

lemma flagStates_updates [simp]:
  "flagStates (s\<lparr>processingUsernames := ps\<rparr>) = flagStates s"
  "flagStates (s\<lparr>microtasks := ms\<rparr>) = flagStates s"
  "flagStates (s\<lparr>timers := ts\<rparr>) = flagStates s"
  by (simp_all add: flagStates_def)

lemma microtasks_setters [simp]:
  "microtasks (setFlagAdded el v s) = microtasks s"
  "microtasks (setShimmer el b s) = microtasks s"
  "microtasks (setTwitterFlag el b s) = microtasks s"
  "microtasks (setTimeout k d s) = microtasks s"
  by (simp_all add: setFlagAdded_def setShimmer_def setTwitterFlag_def setTimeout_def)

lemma filter_update_le:
  "\<not> P y \<Longrightarrow> length (filter P (xs[i := y])) \<le> length (filter P xs)"
  by (induction xs arbitrary: i) (auto split: nat.splits)

lemma filter_update_less:
  "\<not> P y \<Longrightarrow> i < length xs \<Longrightarrow> P (xs ! i) \<Longrightarrow>
   Suc (length (filter P (xs[i := y]))) = length (filter P xs)"
  by (induction xs arbitrary: i) (auto split: nat.splits simp: nth_Cons)

lemma document_processLoop [simp]: "document (processLoop s) = document s"
  by (induction s rule: processLoop.induct)
     (subst processLoop.simps, auto simp: Let_def setTimeout_def send_def makeLocationRequest_def split: list.splits)

lemma microtasks_processLoop [simp]: "microtasks (processLoop s) = microtasks s"
  by (induction s rule: processLoop.induct)
     (subst processLoop.simps, auto simp: Let_def setTimeout_def send_def makeLocationRequest_def split: list.splits)

lemma processingUsernames_processLoop [simp]: "processingUsernames (processLoop s) = processingUsernames s"
  by (induction s rule: processLoop.induct)
     (subst processLoop.simps, auto simp: Let_def setTimeout_def send_def makeLocationRequest_def split: list.splits)


lemma document_processRequestQueue [simp]: "document (processRequestQueue s) = document s"
  by (simp add: processRequestQueue_def setTimeout_def Let_def)

lemma processingUsernames_processRequestQueue [simp]: "processingUsernames (processRequestQueue s) = processingUsernames s"
  by (simp add: processRequestQueue_def setTimeout_def Let_def)

lemma microtasks_processRequestQueue [simp]: "microtasks (processRequestQueue s) = microtasks s"
  by (simp add: processRequestQueue_def setTimeout_def Let_def)

lemma flagStates_document: "document s' = document s \<Longrightarrow> flagStates s' = flagStates s"
  by (simp add: flagStates_def)

lemma getUserLocation_frame:
  "getUserLocation name w s = (r, s') \<Longrightarrow> document s' = document s \<and> microtasks s' = microtasks s"
  by (auto simp: getUserLocation_def split: option.splits)

lemma addFlagToUsername_flagStates:
  "\<exists>v. flagStates (addFlagToUsername el name s) = (flagStates s)[el := v]"
proof -
  have same: "flagStates s = (flagStates s)[el := flagStates s ! el]"
    by simp
  show ?thesis
  proof (cases "flagAdded (document s ! el) = Some FlagTrue \<or> name \<in> processingUsernames s")
    case True
    then have "flagStates (addFlagToUsername el name s) = flagStates s"
      by (auto simp: addFlagToUsername_def setTimeout_def flagStates_def)
    with same show ?thesis by metis
  next
    case False
    then show ?thesis
      by (auto simp: addFlagToUsername_def Let_def flagStates_def setFlagAdded_def setShimmer_def
            map_update map_update_same
          split: prod.splits lookup.splits dest!: getUserLocation_frame intro!: exI)
  qed
qed

lemma addFlagToUsername_measure:
  assumes "el < length (document s)" "flagAdded (document s ! el) = Some Waiting"
  shows "drainMeasure (addFlagToUsername el name s) \<le> drainMeasure s"
proof (cases "name \<in> processingUsernames s")
  case True
  with assms show ?thesis
    by (simp add: addFlagToUsername_def setTimeout_def drainMeasure_def waitingCount_def flagStates_def)
next
  case False
  have w: "Suc (length (filter (\<lambda>v. v = Some Waiting) ((flagStates s)[el := Some Processing])))
        = length (filter (\<lambda>v. v = Some Waiting) (flagStates s))"
    using assms by (intro filter_update_less) (simp_all add: flagStates_def)
  have fr: "\<And>r s' w s0. getUserLocation name w s0 = (r, s') \<Longrightarrow>
      flagStates s' = flagStates s0 \<and> microtasks s' = microtasks s0"
    by (auto dest!: getUserLocation_frame simp: flagStates_def)
  show ?thesis
    using False assms w
    by (auto simp: addFlagToUsername_def Let_def drainMeasure_def waitingCount_def
        split: prod.splits lookup.splits dest!: fr)
qed


lemma fold_addFlag_measure:
  assumes "distinct xs"
    and "\<forall>el\<in>set xs. el < length (flagStates s) \<and> flagStates s ! el = Some Waiting"
  shows "drainMeasure
           (fold (\<lambda>el s'. if extractUsername (document s' ! el) = Some name
                           then addFlagToUsername el name s' else s') xs s)
         \<le> drainMeasure s"
  using assms
proof (induction xs arbitrary: s)
  case Nil
  then show ?case by simp
next
  case (Cons x xs)
  let ?s' = "if extractUsername (document s ! x) = Some name then addFlagToUsername x name s else s"
  obtain v where v: "flagStates ?s' = (flagStates s)[x := v]"
    using addFlagToUsername_flagStates [of x name s]
    by (cases "extractUsername (document s ! x) = Some name") (auto intro: list_update_id [symmetric])
  have x: "x < length (document s)" "flagAdded (document s ! x) = Some Waiting"
    using Cons.prems(2) by (auto simp: flagStates_def)
  have m: "drainMeasure ?s' \<le> drainMeasure s"
    using addFlagToUsername_measure [OF x] by simp
  have "\<forall>el\<in>set xs. el < length (flagStates ?s') \<and> flagStates ?s' ! el = Some Waiting"
    using Cons.prems v by (auto simp: nth_list_update)
  with Cons.IH [of ?s'] Cons.prems(1) m show ?case
    by simp
qed

lemma redrive_measure: "drainMeasure (redrive name s) \<le> drainMeasure s"
  unfolding redrive_def
  by (rule fold_addFlag_measure) (auto simp: flagStates_def)

lemma setFlagAdded_measure:
  "v \<noteq> Some Waiting \<Longrightarrow> drainMeasure (setFlagAdded el v s) \<le> drainMeasure s"
  by (simp add: drainMeasure_def waitingCount_def filter_update_le)

lemma drainMeasure_updates [simp]:
  "drainMeasure (setShimmer el b s) = drainMeasure s"
  "drainMeasure (setTwitterFlag el b s) = drainMeasure s"
  "drainMeasure (s\<lparr>processingUsernames := ps\<rparr>) = drainMeasure s"
  by (simp_all add: drainMeasure_def waitingCount_def)

lemma afterLookup_measure: "drainMeasure (afterLookup g w r s) \<le> drainMeasure s"
proof -
  define el where "el = usernameElement w"
  define s1 where "s1 = (if shimmerInserted w \<and> twitterFlagShimmer (document s ! el)
                then setShimmer el False s else s)"
  define s2 where "s2 = (case r of
                  Rejected \<Rightarrow> setFlagAdded el (Some Failed) s1
                | Resolved loc \<Rightarrow>
                    (case or_null loc of
                       None \<Rightarrow> setFlagAdded el (Some Failed) s1
                     | Some l \<Rightarrow>
                         (case g l of
                            None \<Rightarrow> setFlagAdded el (Some Failed) s1
                          | Some flag \<Rightarrow>
                              if twitterFlag (document s1 ! el)
                              then setFlagAdded el (Some FlagTrue) s1
                              else if \<not> userNameContainer (document s1 ! el)
                              then setFlagAdded el (Some Failed) s1
                              else redrive (screenName w)
                                     (setFlagAdded el (Some FlagTrue)
                                        (setTwitterFlag el True s1)))))"
  have m1: "drainMeasure s1 = drainMeasure s"
    by (simp add: s1_def)
  have a: "drainMeasure (redrive (screenName w) (setFlagAdded el (Some FlagTrue) (setTwitterFlag el True s1)))
      \<le> drainMeasure s1"
    using redrive_measure [of "screenName w" "setFlagAdded el (Some FlagTrue) (setTwitterFlag el True s1)"]
      setFlagAdded_measure [of "Some FlagTrue" el "setTwitterFlag el True s1"]
    by simp
  have m2: "drainMeasure s2 \<le> drainMeasure s1"
    unfolding s2_def using a
    by (simp add: setFlagAdded_measure split: settled.splits option.splits)
  have "afterLookup g w r s = s2\<lparr>processingUsernames := processingUsernames s2 - {screenName w}\<rparr>"
    unfolding afterLookup_def Let_def s2_def s1_def el_def by (rule refl)
  with m1 m2 show ?thesis by simp
qed

function drain :: "(string \<Rightarrow> string option) \<Rightarrow> state \<Rightarrow> state" where
  "drain getCountryFlag s =
     (case microtasks s of
        [] \<Rightarrow> s
      | (w, r) # rest \<Rightarrow>
          drain getCountryFlag (afterLookup getCountryFlag w r (s\<lparr>microtasks := rest\<rparr>)))"
  by pat_completeness auto
termination
proof (relation "measure (\<lambda>(g, s). drainMeasure s)", goal_cases)
  case 1
  show ?case by simp
next
  case (2 g s x xs w r)
  have "drainMeasure (s\<lparr>microtasks := xs\<rparr>) < drainMeasure s"
    using 2 by (simp add: drainMeasure_def waitingCount_def)
  with afterLookup_measure [of g w r "s\<lparr>microtasks := xs\<rparr>"] show ?case
    by simp
qed

declare drain.simps [simp del]

subsection \<open>Events\<close>

text \<open>
  The environment: a timer fires (named by its position in \<open>timers\<close>), a runtime
  message, a window message from the page script, the host page adds elements, the URL
  changes, the extension context is invalidated. An event carries the time at which it
  happens. Time never runs backwards and a timer never fires before it is due; any other
  order of events is possible.
\<close>

datatype event =
    Fire nat
  | RuntimeMessage string bool
  | RateLimitInfo int
  | LocationResponse string nat location bool
  | DomAdded "element list"
  | UrlChanged
  | ContextInvalidated

definition fire :: "timer \<Rightarrow> state \<Rightarrow> state" where
  "fire k s =
     (case k of
        ProcessQueueTimer \<Rightarrow> processRequestQueue s
      | LoopDelay \<Rightarrow> afterLoopDelay s
      | BridgeTimeout rid \<Rightarrow> bridgeTimeout rid s
      | WaitingDelay el \<Rightarrow> afterWaiting el s
      | SaveDebounce \<Rightarrow> saveDebounced s
      | ScanTimer \<Rightarrow> processUsernames s
      | FlushInterval \<Rightarrow> saveCache (setTimeout FlushInterval 30000 s))"

definition react :: "event \<Rightarrow> state \<Rightarrow> state option" where
  "react ev s =
     (case ev of
        Fire i \<Rightarrow>
          if i < length (timers s) \<and> fst (timers s ! i) \<le> clock s
          then Some (fire (snd (timers s ! i))
                       (s\<lparr>timers := take i (timers s) @ drop (Suc i) (timers s)\<rparr>))
          else None
      | RuntimeMessage type enabled \<Rightarrow> Some (onMessage type enabled s)
      | RateLimitInfo resetTime \<Rightarrow> Some (onRateLimitInfo resetTime s)
      | LocationResponse name rid loc isRateLimited \<Rightarrow>
          Some (onLocationResponse name rid loc isRateLimited s)
      | DomAdded els \<Rightarrow> Some (onDomAdded els s)
      | UrlChanged \<Rightarrow> Some (onUrlChanged s)
      | ContextInvalidated \<Rightarrow> Some (s\<lparr>contextValid := False\<rparr>))"

definition step :: "(string \<Rightarrow> string option) \<Rightarrow> int \<times> event \<Rightarrow> state \<Rightarrow> state option" where
  "step getCountryFlag e s =
     (case e of (t, ev) \<Rightarrow>
        if t < clock s then None
        else map_option (drain getCountryFlag) (react ev (s\<lparr>clock := t\<rparr>)))"

fun run :: "(string \<Rightarrow> string option) \<Rightarrow> (int \<times> event) list \<Rightarrow> state \<Rightarrow> state option" where
  "run getCountryFlag [] s = Some s"
| "run getCountryFlag (e # es) s =
     (case step getCountryFlag e s of
        None \<Rightarrow> None
      | Some s' \<Rightarrow> run getCountryFlag es s')"

section \<open>Shared facts and scenarios\<close>

lemma find_in_set: "find P xs = Some x \<Longrightarrow> x \<in> set xs"
  by (auto simp: find_Some_iff)

lemma listeners_saveCacheEntry [simp]: "listeners (saveCacheEntry h l s) = listeners s"
  by (simp add: saveCacheEntry_def setTimeout_def Let_def)

lemma invariant_fold:
  "(\<And>x t. P t \<Longrightarrow> P (f x t)) \<Longrightarrow> P s \<Longrightarrow> P (fold f xs s)"
  by (induction xs arbitrary: s) auto

text \<open>
  Concrete inputs: a flag table that knows one country, a fresh container for a handle,
  and the state after the first scan of a page with one container for \<^verbatim>\<open>alice\<close>: the
  request for \<^verbatim>\<open>alice\<close> is pending at the bridge.
\<close>

definition flagOf :: "string \<Rightarrow> string option" where
  "flagOf l = (if l = ''France'' then Some ''FR'' else None)"

definition card :: "string \<Rightarrow> element" where
  "card name = \<lparr>extractUsername = Some name, flagAdded = None, userNameContainer = True,
                twitterFlag = False, twitterFlagShimmer = False\<rparr>"

lemma firstScan_run:
  "map_option (\<lambda>s. (listeners s, microtasks s, processingUsernames s, clock s,
                     length (document s)))
     (run flagOf [(1002000, Fire 0)] (init (initial 1000000 None None [card ''alice''])))
   = Some ([\<lparr>requestId = 0, b_screenName = ''alice'',
              b_resolve = \<lparr>usernameElement = 0, screenName = ''alice'', shimmerInserted = True\<rparr>\<rparr>],
           [], {''alice''}, 1002000, 1)"
  by code_simp

section \<open>Request queue: concurrency and spacing\<close>

text \<open>
  \<open>spaced\<close> reads a list of dispatch times, newest first: each dispatch is at least
  \<^verbatim>\<open>MIN_REQUEST_INTERVAL\<close> after the one before it.
\<close>

fun spaced :: "int list \<Rightarrow> bool" where
  "spaced (a # b # ts) = (MIN_REQUEST_INTERVAL \<le> a - b \<and> spaced (b # ts))"
| "spaced ts = True"

definition isLoopDelay :: "int \<times> timer \<Rightarrow> bool" where
  "isLoopDelay e = (snd e = LoopDelay)"

definition countersInv :: "state \<Rightarrow> bool" where
  "countersInv s \<longleftrightarrow>
     activeRequests s = int (length (listeners s))
     \<and> activeRequests s \<le> MAX_CONCURRENT_REQUESTS
     \<and> spaced (map fst (posted s))
     \<and> (posted s \<noteq> [] \<longrightarrow> fst (hd (posted s)) = lastRequestTime s)"

definition queueInv :: "state \<Rightarrow> bool" where
  "queueInv s \<longleftrightarrow>
     countersInv s
     \<and> length (filter isLoopDelay (timers s)) = (if isProcessingQueue s then 1 else 0)
     \<and> (\<forall>e \<in> set (timers s). isLoopDelay e \<longrightarrow>
           lastRequestTime s + MIN_REQUEST_INTERVAL \<le> fst e
           \<and> requestQueue s \<noteq> []
           \<and> activeRequests s < MAX_CONCURRENT_REQUESTS)"

definition loopInv :: "state \<Rightarrow> bool" where
  "loopInv s \<longleftrightarrow>
     countersInv s \<and> isProcessingQueue s \<and> (\<forall>e \<in> set (timers s). \<not> isLoopDelay e)"

lemma loopInv_send:
  assumes "loopInv s" "activeRequests s < MAX_CONCURRENT_REQUESTS"
    and "lastRequestTime s + MIN_REQUEST_INTERVAL \<le> clock s"
  shows "loopInv (send r s)"
  using assms
  by (cases "posted s")
     (auto simp: loopInv_def countersInv_def send_def makeLocationRequest_def setTimeout_def
        Let_def isLoopDelay_def)

lemma loopInv_requestQueue [simp]: "loopInv (s\<lparr>requestQueue := q\<rparr>) = loopInv s"
  by (simp add: loopInv_def countersInv_def)

lemma queueInv_processLoop: "loopInv s \<Longrightarrow> queueInv (processLoop s)"
proof (induction s rule: processLoop.induct)
  case (1 s)
  show ?case
  proof (cases "requestQueue s \<noteq> [] \<and> activeRequests s < MAX_CONCURRENT_REQUESTS")
    case False
    then have "processLoop s = s\<lparr>isProcessingQueue := False\<rparr>"
      by (subst processLoop.simps) auto
    with "1.prems" show ?thesis
      by (auto simp: loopInv_def queueInv_def countersInv_def filter_empty_conv)
  next
    case True
    show ?thesis
    proof (cases "clock s - lastRequestTime s < MIN_REQUEST_INTERVAL")
      case wait: True
      with True have "processLoop s =
          setTimeout LoopDelay (MIN_REQUEST_INTERVAL - (clock s - lastRequestTime s)) s"
        by (subst processLoop.simps) (simp add: Let_def)
      moreover have "filter isLoopDelay (timers s) = []"
        using "1.prems" by (simp add: loopInv_def filter_empty_conv)
      ultimately show ?thesis
        using True "1.prems"
        by (auto simp: loopInv_def queueInv_def countersInv_def setTimeout_def isLoopDelay_def)
    next
      case go: False
      from True obtain r rest where q: "requestQueue s = r # rest"
        by (cases "requestQueue s") auto
      have "loopInv (send r (s\<lparr>requestQueue := rest\<rparr>))"
        using "1.prems" True go by (intro loopInv_send) simp_all
      with "1.IH" [OF True refl refl go q] have "queueInv (processLoop (send r (s\<lparr>requestQueue := rest\<rparr>)))"
        by simp
      with True go q show ?thesis
        by (subst processLoop.simps) (simp add: Let_def)
    qed
  qed
qed

lemma queueInv_afterLoopDelay:
  assumes "loopInv s" "requestQueue s \<noteq> []" "activeRequests s < MAX_CONCURRENT_REQUESTS"
    and "lastRequestTime s + MIN_REQUEST_INTERVAL \<le> clock s"
  shows "queueInv (afterLoopDelay s)"
proof -
  from assms(2) obtain r rest where q: "requestQueue s = r # rest"
    by (cases "requestQueue s") auto
  have "loopInv (send r (s\<lparr>requestQueue := rest\<rparr>))"
    using assms by (intro loopInv_send) simp_all
  then show ?thesis
    using q by (simp add: afterLoopDelay_def queueInv_processLoop)
qed

lemma queueInv_processRequestQueue: "queueInv s \<Longrightarrow> queueInv (processRequestQueue s)"
proof -
  assume a: "queueInv s"
  show ?thesis
  proof (cases "isProcessingQueue s \<or> requestQueue s = []")
    case True
    with a show ?thesis by (auto simp: processRequestQueue_def)
  next
    case False
    then have l: "\<And>v. loopInv (s\<lparr>rateLimitResetTime := v, isProcessingQueue := True\<rparr>)"
        "loopInv (s\<lparr>isProcessingQueue := True\<rparr>)"
      using a False by (auto simp: queueInv_def loopInv_def countersInv_def filter_empty_conv)
    have t: "\<And>d. queueInv (setTimeout ProcessQueueTimer d s)"
      using a by (auto simp: queueInv_def countersInv_def setTimeout_def isLoopDelay_def)
    show ?thesis
      using False l t by (simp add: processRequestQueue_def Let_def queueInv_processLoop)
  qed
qed


lemma queueInv_setTimeout:
  "k \<noteq> LoopDelay \<Longrightarrow> queueInv s \<Longrightarrow> queueInv (setTimeout k d s)"
  by (auto simp: queueInv_def countersInv_def setTimeout_def isLoopDelay_def)

lemma queueInv_frame:
  assumes "queueInv s"
    and "activeRequests s' = activeRequests s" "listeners s' = listeners s"
    and "posted s' = posted s" "lastRequestTime s' = lastRequestTime s"
    and "isProcessingQueue s' = isProcessingQueue s" "timers s' = timers s"
    and "requestQueue s' = requestQueue s"
  shows "queueInv s'"
  using assms by (auto simp: queueInv_def countersInv_def)

lemma queueInv_setters:
  "queueInv s \<Longrightarrow> queueInv (setFlagAdded el v s)"
  "queueInv s \<Longrightarrow> queueInv (setShimmer el b s)"
  "queueInv s \<Longrightarrow> queueInv (setTwitterFlag el b s)"
  "queueInv s \<Longrightarrow> queueInv (removeAllFlags s)"
  "queueInv s \<Longrightarrow> queueInv (saveCache s)"
  "queueInv s \<Longrightarrow> queueInv (saveDebounced s)"
  "queueInv s \<Longrightarrow> queueInv (loadCache s)"
  "queueInv s \<Longrightarrow> queueInv (loadEnabledState s)"
  "queueInv s \<Longrightarrow> queueInv (onRateLimitInfo t s)"
  by (erule queueInv_frame;
      simp add: setFlagAdded_def setShimmer_def setTwitterFlag_def removeAllFlags_def
        saveCache_def saveDebounced_def loadCache_def loadEnabledState_def onRateLimitInfo_def
        Let_def split: option.splits)+

lemma queueInv_saveCacheEntry: "queueInv s \<Longrightarrow> queueInv (saveCacheEntry h l s)"
proof -
  assume a: "queueInv s"
  have "\<And>c b. queueInv (s\<lparr>locationCache := c, saveCacheTimeout := b\<rparr>)"
       "\<And>c. queueInv (s\<lparr>locationCache := c\<rparr>)"
    by (rule queueInv_frame [OF a]; simp)+
  with a show ?thesis
    by (simp add: saveCacheEntry_def Let_def queueInv_setTimeout)
qed

lemma queueInv_settle:
  assumes "queueInv s" "r \<in> set (listeners s)"
  shows "queueInv (settle r v s)"
proof -
  have "length (remove1 r (listeners s)) = length (listeners s) - 1" "listeners s \<noteq> []"
    using assms(2) by (auto simp: length_remove1)
  then have "queueInv (s\<lparr>listeners := remove1 r (listeners s),
          microtasks := microtasks s @ [(b_resolve r, Resolved v)],
          activeRequests := activeRequests s - 1\<rparr>)"
    using assms(1) by (cases "listeners s") (auto simp: queueInv_def countersInv_def)
  then show ?thesis
    by (simp add: settle_def queueInv_setTimeout)
qed

lemma queueInv_onLocationResponse:
  "queueInv s \<Longrightarrow> queueInv (onLocationResponse name rid loc rl s)"
  by (auto simp: onLocationResponse_def handler_def Let_def split: option.splits
      intro!: queueInv_settle queueInv_saveCacheEntry dest: find_in_set)

lemma queueInv_bridgeTimeout: "queueInv s \<Longrightarrow> queueInv (bridgeTimeout rid s)"
  by (auto simp: bridgeTimeout_def split: option.splits intro!: queueInv_settle dest: find_in_set)

lemma queueInv_getUserLocation: "queueInv s \<Longrightarrow> queueInv (snd (getUserLocation name w s))"
proof -
  assume a: "queueInv s"
  have "\<And>c q. queueInv (s\<lparr>locationCache := c, requestQueue := requestQueue s @ q\<rparr>)"
       "\<And>q. queueInv (s\<lparr>requestQueue := requestQueue s @ q\<rparr>)"
    using a by (auto simp: queueInv_def countersInv_def)
  with a show ?thesis
    by (auto simp: getUserLocation_def split: option.splits intro!: queueInv_processRequestQueue)
qed

lemma queueInv_microtasks [simp]: "queueInv (s\<lparr>microtasks := m\<rparr>) = queueInv s"
  by (simp add: queueInv_def countersInv_def)

lemma queueInv_processingUsernames [simp]: "queueInv (s\<lparr>processingUsernames := m\<rparr>) = queueInv s"
  by (simp add: queueInv_def countersInv_def)

lemma queueInv_addFlagToUsername: "queueInv s \<Longrightarrow> queueInv (addFlagToUsername el name s)"
proof -
  assume a: "queueInv s"
  have "\<And>w w' s0. queueInv s0 \<Longrightarrow> queueInv (case getUserLocation name w s0 of
             (Returned cached, s4) \<Rightarrow>
               s4\<lparr>microtasks := microtasks s4 @ [(w', Resolved (Some cached))]\<rparr>
           | (Pending, s4) \<Rightarrow> s4)"
    using queueInv_getUserLocation [of _ name]
    by (auto split: prod.splits lookup.splits) (metis snd_conv)+
  then show ?thesis
    using a by (simp add: addFlagToUsername_def Let_def queueInv_setTimeout queueInv_setters)
qed

lemma queueInv_fold:
  "(\<And>x t. queueInv t \<Longrightarrow> queueInv (f x t)) \<Longrightarrow> queueInv s \<Longrightarrow> queueInv (fold f xs s)"
  by (induction xs arbitrary: s) auto

lemma queueInv_redrive: "queueInv s \<Longrightarrow> queueInv (redrive name s)"
  unfolding redrive_def by (rule queueInv_fold) (auto intro: queueInv_addFlagToUsername)

lemma queueInv_processUsernames: "queueInv s \<Longrightarrow> queueInv (processUsernames s)"
  unfolding processUsernames_def
  by (auto intro!: queueInv_fold queueInv_addFlagToUsername split: option.splits)

lemma queueInv_afterWaiting: "queueInv s \<Longrightarrow> queueInv (afterWaiting el s)"
  by (simp add: afterWaiting_def queueInv_setters)

lemma queueInv_afterLookup: "queueInv s \<Longrightarrow> queueInv (afterLookup g w r s)"
  by (simp add: afterLookup_def Let_def queueInv_setters queueInv_redrive
      split: settled.splits option.splits)

lemma queueInv_drain: "queueInv s \<Longrightarrow> queueInv (drain g s)"
proof (induction g s rule: drain.induct)
  case (1 g s)
  show ?case
  proof (cases "microtasks s")
    case Nil
    with "1.prems" show ?thesis by (subst drain.simps) simp
  next
    case (Cons a rest)
    obtain w r where a: "a = (w, r)" by (cases a)
    have "queueInv (afterLookup g w r (s\<lparr>microtasks := rest\<rparr>))"
      using "1.prems" by (simp add: queueInv_afterLookup)
    with "1.IH" [OF Cons a [symmetric]] Cons a show ?thesis
      by (subst drain.simps) simp
  qed
qed


lemma filter_remove_nth:
  assumes "i < length xs"
  shows "set (take i xs @ drop (Suc i) xs) \<subseteq> set xs"
    and "\<not> P (xs ! i) \<Longrightarrow> filter P (take i xs @ drop (Suc i) xs) = filter P xs"
    and "P (xs ! i) \<Longrightarrow> Suc (length (filter P (take i xs @ drop (Suc i) xs))) = length (filter P xs)"
proof -
  have xs: "xs = take i xs @ xs ! i # drop (Suc i) xs"
    using assms by (rule id_take_nth_drop)
  have s: "set xs = set (take i xs @ xs ! i # drop (Suc i) xs)"
    and f: "filter P xs = filter P (take i xs @ xs ! i # drop (Suc i) xs)"
    using xs by (rule arg_cong)+
  show "set (take i xs @ drop (Suc i) xs) \<subseteq> set xs"
    unfolding s by auto
  show "\<not> P (xs ! i) \<Longrightarrow> filter P (take i xs @ drop (Suc i) xs) = filter P xs"
    unfolding f by simp
  show "P (xs ! i) \<Longrightarrow> Suc (length (filter P (take i xs @ drop (Suc i) xs))) = length (filter P xs)"
    unfolding f by simp
qed

lemma queueInv_fire_other:
  assumes "queueInv s" "k \<noteq> LoopDelay"
  shows "queueInv (fire k s)"
  using assms
  by (cases k)
     (simp_all add: fire_def queueInv_processRequestQueue queueInv_bridgeTimeout
        queueInv_afterWaiting queueInv_setters queueInv_processUsernames queueInv_setTimeout)

lemma queueInv_Fire:
  assumes inv: "queueInv s" and i: "i < length (timers s)" and due: "fst (timers s ! i) \<le> clock s"
  shows "queueInv (fire (snd (timers s ! i))
                     (s\<lparr>timers := take i (timers s) @ drop (Suc i) (timers s)\<rparr>))"
proof (cases "isLoopDelay (timers s ! i)")
  case True
  let ?s' = "s\<lparr>timers := take i (timers s) @ drop (Suc i) (timers s)\<rparr>"
  have mem: "timers s ! i \<in> set (timers s)"
    using i by simp
  with inv True have facts: "lastRequestTime s + MIN_REQUEST_INTERVAL \<le> fst (timers s ! i)"
      "requestQueue s \<noteq> []" "activeRequests s < MAX_CONCURRENT_REQUESTS"
    by (auto simp: queueInv_def)
  have "length (filter isLoopDelay (timers s)) \<le> 1" "isProcessingQueue s"
    using inv mem True by (auto simp: queueInv_def split: if_splits simp: filter_empty_conv)
  with filter_remove_nth(3) [OF i, of isLoopDelay] True
  have "length (filter isLoopDelay (take i (timers s) @ drop (Suc i) (timers s))) = 0"
    by linarith
  then have "filter isLoopDelay (take i (timers s) @ drop (Suc i) (timers s)) = []"
    by (simp only: length_0_conv)
  then have "loopInv ?s'"
    using inv \<open>isProcessingQueue s\<close> by (auto simp: loopInv_def queueInv_def countersInv_def filter_empty_conv)
  then have "queueInv (afterLoopDelay ?s')"
    using facts due by (intro queueInv_afterLoopDelay) simp_all
  with True show ?thesis
    by (simp add: isLoopDelay_def fire_def)
next
  case False
  have "queueInv (s\<lparr>timers := take i (timers s) @ drop (Suc i) (timers s)\<rparr>)"
    using inv filter_remove_nth(1) [OF i] filter_remove_nth(2) [OF i, of isLoopDelay] False
    by (auto simp: queueInv_def countersInv_def)
  then show ?thesis
    using False by (intro queueInv_fire_other) (simp_all add: isLoopDelay_def)
qed

lemma queueInv_clock [simp]: "queueInv (s\<lparr>clock := t\<rparr>) = queueInv s"
  by (simp add: queueInv_def countersInv_def)

lemma queueInv_extensionEnabled [simp]: "queueInv (s\<lparr>extensionEnabled := b\<rparr>) = queueInv s"
  by (simp add: queueInv_def countersInv_def)

lemma queueInv_react:
  assumes "queueInv s" "react ev s = Some s'"
  shows "queueInv s'"
proof (cases ev)
  case (Fire i)
  with assms show ?thesis
    by (auto simp: react_def split: if_splits intro: queueInv_Fire)
next
  case (RuntimeMessage type enabled)
  with assms show ?thesis
    by (auto simp: react_def onMessage_def Let_def queueInv_setters queueInv_setTimeout
        intro!: queueInv_setters queueInv_setTimeout elim: queueInv_frame)
next
  case (RateLimitInfo t)
  with assms show ?thesis by (auto simp: react_def queueInv_setters)
next
  case (LocationResponse name rid loc rl)
  with assms show ?thesis by (auto simp: react_def queueInv_onLocationResponse)
next
  case (DomAdded els)
  have "queueInv (s\<lparr>document := document s @ els\<rparr>)"
    by (rule queueInv_frame [OF assms(1)]) simp_all
  with DomAdded assms show ?thesis
    by (auto simp: react_def onDomAdded_def Let_def queueInv_setTimeout)
next
  case UrlChanged
  with assms show ?thesis by (auto simp: react_def onUrlChanged_def queueInv_setTimeout)
next
  case ContextInvalidated
  have "queueInv (s\<lparr>contextValid := False\<rparr>)"
    by (rule queueInv_frame [OF assms(1)]) simp_all
  with ContextInvalidated assms show ?thesis
    by (auto simp: react_def)
qed

lemma queueInv_step:
  assumes "queueInv s" "step g e s = Some s'"
  shows "queueInv s'"
  using assms
  by (cases e) (auto simp: step_def split: if_splits dest!: queueInv_react [rotated] intro: queueInv_drain)

lemma queueInv_run: "queueInv s \<Longrightarrow> run g es s = Some s' \<Longrightarrow> queueInv s'"
  by (induction es arbitrary: s) (auto split: option.splits dest: queueInv_step)

lemma queueInv_initial: "queueInv (initial t tog stored doc)"
  by (simp add: queueInv_def countersInv_def initial_def MAX_CONCURRENT_REQUESTS_def)

lemma queueInv_init: "queueInv s \<Longrightarrow> queueInv (init s)"
proof -
  assume a: "queueInv s"
  then have b: "queueInv (loadCache (loadEnabledState s))"
    by (simp add: queueInv_setters)
  have c: "\<And>t. queueInv t \<Longrightarrow> queueInv (t\<lparr>pageScriptInjected := True\<rparr>)"
          "\<And>t. queueInv t \<Longrightarrow> queueInv (t\<lparr>observing := True\<rparr>)"
    by (erule queueInv_frame; simp)+
  show ?thesis
    using b by (simp add: init_def Let_def queueInv_setTimeout c)
qed

text \<open>
  C1. Whatever the events and their order (scans that enqueue any number of requests,
  responses, timers firing late, rate-limit signals, toggles), as long as time does not
  run backwards and no timer fires early: after every event the counter
  \<^verbatim>\<open>activeRequests\<close> and the number of pending bridge promises are at most
  \<^verbatim>\<open>MAX_CONCURRENT_REQUESTS\<close> = 2, and in the history of posted
  \<^verbatim>\<open>__fetchLocation\<close> messages any two consecutive ones are at least
  \<^verbatim>\<open>MIN_REQUEST_INTERVAL\<close> = 2000 ms apart. Within one event the counter first only
  falls (settled promises) and then only rises (the loop), so the bound after the event
  bounds it throughout.
\<close>

theorem queue_limits:
  assumes "run getCountryFlag evs (init (initial t tog stored doc)) = Some s"
  shows "activeRequests s \<le> MAX_CONCURRENT_REQUESTS
         \<and> int (length (listeners s)) \<le> 2
         \<and> spaced (map fst (posted s))"
proof -
  have "queueInv s"
    using queueInv_run [OF queueInv_init [OF queueInv_initial] assms] .
  then show ?thesis
    by (simp add: queueInv_def countersInv_def MAX_CONCURRENT_REQUESTS_def)
qed

text \<open>
  A burst: three handles found by one scan. The first request leaves at once, the
  second after the 2000 ms wait of the loop, the third only after the first has
  completed and another 2000 ms have passed.
\<close>

definition burst :: "(int \<times> event) list" where
  "burst = [(1002000, Fire 0), (1004000, Fire 2),
            (1005000, LocationResponse ''alice'' 0 (Some ''France'') False),
            (1005200, Fire 4), (1006000, Fire 4)]"

lemma burst_run:
  "map_option (\<lambda>s. (activeRequests s, length (listeners s), map fst (posted s)))
     (run flagOf burst
        (init (initial 1000000 None None [card ''alice'', card ''bob'', card ''carol''])))
   = Some (2, 2, [1006000, 1004000, 1002000])"
  by code_simp

theorem queue_limits_witness:
  "map_option (\<lambda>s. (activeRequests s, length (listeners s), map fst (posted s)))
     (run flagOf burst
        (init (initial 1000000 None None [card ''alice'', card ''bob'', card ''carol''])))
   = Some (2, 2, [1006000, 1004000, 1002000])
   \<and> spaced [1006000, 1004000, 1002000]"
proof -
  obtain s where r: "run flagOf burst
        (init (initial 1000000 None None [card ''alice'', card ''bob'', card ''carol''])) = Some s"
    and p: "map fst (posted s) = [1006000, 1004000, 1002000]"
    using burst_run by auto
  from queue_limits [OF r] p have "spaced [1006000, 1004000, 1002000]"
    by simp
  with burst_run show ?thesis by simp
qed

section \<open>Lookups and the cache\<close>

definition sentOrQueued :: "string \<Rightarrow> waiter \<Rightarrow> state \<Rightarrow> bool" where
  "sentOrQueued name w s =
     (\<lparr>q_screenName = name, q_resolve = w\<rparr> \<in> set (requestQueue s)
      \<or> (name, w) \<in> (\<lambda>b. (b_screenName b, b_resolve b)) ` set (listeners s))"

lemma sentOrQueued_processLoop:
  "sentOrQueued name w s \<Longrightarrow> sentOrQueued name w (processLoop s)"
proof (induction s rule: processLoop.induct)
  case (1 s)
  show ?case
  proof (cases "requestQueue s \<noteq> [] \<and> activeRequests s < MAX_CONCURRENT_REQUESTS
                \<and> \<not> clock s - lastRequestTime s < MIN_REQUEST_INTERVAL")
    case True
    then obtain r rest where q: "requestQueue s = r # rest"
      by (cases "requestQueue s") auto
    have "sentOrQueued name w (send r (s\<lparr>requestQueue := rest\<rparr>))"
      using "1.prems" q
      by (cases r) (auto simp: sentOrQueued_def send_def makeLocationRequest_def setTimeout_def Let_def)
    with "1.IH" [OF _ refl refl _ q] True have "sentOrQueued name w (processLoop (send r (s\<lparr>requestQueue := rest\<rparr>)))"
      by simp
    with True q show ?thesis
      by (subst processLoop.simps) (simp add: Let_def)
  next
    case False
    with "1.prems" show ?thesis
      by (subst processLoop.simps) (auto simp: Let_def sentOrQueued_def setTimeout_def)
  qed
qed

lemma sentOrQueued_processRequestQueue:
  "sentOrQueued name w s \<Longrightarrow> sentOrQueued name w (processRequestQueue s)"
proof -
  assume a: "sentOrQueued name w s"
  have b: "\<And>f g. sentOrQueued name w (s\<lparr>rateLimitResetTime := f, isProcessingQueue := g\<rparr>)"
          "\<And>g. sentOrQueued name w (s\<lparr>isProcessingQueue := g\<rparr>)"
    using a by (simp_all add: sentOrQueued_def)
  show ?thesis
    using a b by (auto simp: processRequestQueue_def Let_def intro!: sentOrQueued_processLoop)
       (simp add: sentOrQueued_def setTimeout_def)
qed

lemma locationCache_processLoop [simp]: "locationCache (processLoop s) = locationCache s"
  by (induction s rule: processLoop.induct)
     (subst processLoop.simps, auto simp: Let_def setTimeout_def send_def makeLocationRequest_def split: list.splits)

lemma locationCache_processRequestQueue [simp]:
  "locationCache (processRequestQueue s) = locationCache s"
  by (simp add: processRequestQueue_def setTimeout_def Let_def)

text \<open>
  C5. When the in-memory cache holds a location (not \<^verbatim>\<open>null\<close>) for a handle (the cache
  holds only entries that were unexpired when loaded, or that were fetched during this
  page load), \<^verbatim>\<open>getUserLocation\<close> returns that location and changes nothing: the
  queue, the pending bridge promises and the history of posted messages are the same.
\<close>

theorem cached_location_returned_without_request:
  assumes "map_of (locationCache s) h = Some (Some loc)"
  shows "getUserLocation h w s = (Returned loc, s)"
  using assms by (simp add: getUserLocation_def)

theorem cached_location_returned_without_request_witness:
  "map_of (locationCache (saveCacheEntry ''alice'' (Some ''France'') (initial 1000 None None []))) ''alice''
     = Some (Some ''France'')
   \<and> getUserLocation ''alice'' \<lparr>usernameElement = 0, screenName = ''alice'', shimmerInserted = True\<rparr>
        (saveCacheEntry ''alice'' (Some ''France'') (initial 1000 None None []))
     = (Returned ''France'', saveCacheEntry ''alice'' (Some ''France'') (initial 1000 None None []))"
proof -
  have a: "map_of (locationCache (saveCacheEntry ''alice'' (Some ''France'') (initial 1000 None None []))) ''alice''
     = Some (Some ''France'')"
    by (simp add: saveCacheEntry_def initial_def setTimeout_def Let_def)
  from cached_location_returned_without_request [OF a] a show ?thesis by blast
qed

text \<open>
  C4, as stated, fails: with \<^verbatim>\<open>null\<close> cached for \<^verbatim>\<open>alice\<close> in an idle script, the next
  lookup posts a \<^verbatim>\<open>__fetchLocation\<close> message for \<^verbatim>\<open>alice\<close>.
\<close>

theorem cached_null_refetched_counterexample:
  "map_of (locationCache (saveCacheEntry ''alice'' None (initial 1000000 None None []))) ''alice''
     = Some None
   \<and> posted (snd (getUserLocation ''alice''
                    \<lparr>usernameElement = 0, screenName = ''alice'', shimmerInserted = True\<rparr>
                    (saveCacheEntry ''alice'' None (initial 1000000 None None []))))
     = [(1000000, ''alice'', 0)]"
  by (simp add: getUserLocation_def saveCacheEntry_def initial_def setTimeout_def Let_def
      processRequestQueue_def processLoop.simps send_def makeLocationRequest_def
      MAX_CONCURRENT_REQUESTS_def MIN_REQUEST_INTERVAL_def)

text \<open>
  C4, amended. A cached \<^verbatim>\<open>null\<close> does not suppress re-fetching: a lookup for a handle
  whose cached location is \<^verbatim>\<open>null\<close> does not return from the cache; it deletes the
  entry from the in-memory cache and enqueues a new request for the handle, which is
  then in the queue or already sent through the page bridge.
\<close>

theorem cached_null_is_evicted_and_refetched:
  assumes "map_of (locationCache s) h = Some None"
  shows "fst (getUserLocation h w s) = Pending
         \<and> map_of (locationCache (snd (getUserLocation h w s))) h = None
         \<and> sentOrQueued h w (snd (getUserLocation h w s))"
proof -
  let ?s1 = "s\<lparr>locationCache := AList.delete h (locationCache s),
                requestQueue := requestQueue s @ [\<lparr>q_screenName = h, q_resolve = w\<rparr>]\<rparr>"
  have g: "getUserLocation h w s = (Pending, processRequestQueue ?s1)"
    using assms by (simp add: getUserLocation_def)
  have "sentOrQueued h w ?s1"
    by (simp add: sentOrQueued_def)
  then have "sentOrQueued h w (processRequestQueue ?s1)"
    by (rule sentOrQueued_processRequestQueue)
  moreover have "map_of (locationCache (processRequestQueue ?s1)) h = None"
    by (simp add: delete_conv')
  ultimately show ?thesis
    using g by simp
qed

theorem cached_null_is_evicted_and_refetched_witness:
  "map_of (locationCache (saveCacheEntry ''alice'' None (initial 1000000 None None []))) ''alice''
     = Some None
   \<and> fst (getUserLocation ''alice''
            \<lparr>usernameElement = 0, screenName = ''alice'', shimmerInserted = True\<rparr>
            (saveCacheEntry ''alice'' None (initial 1000000 None None []))) = Pending
   \<and> sentOrQueued ''alice'' \<lparr>usernameElement = 0, screenName = ''alice'', shimmerInserted = True\<rparr>
       (snd (getUserLocation ''alice''
            \<lparr>usernameElement = 0, screenName = ''alice'', shimmerInserted = True\<rparr>
            (saveCacheEntry ''alice'' None (initial 1000000 None None []))))"
proof -
  have a: "map_of (locationCache (saveCacheEntry ''alice'' None (initial 1000000 None None []))) ''alice''
     = Some None"
    by (simp add: saveCacheEntry_def initial_def setTimeout_def Let_def)
  from cached_null_is_evicted_and_refetched [OF a] a show ?thesis by blast
qed

section \<open>Location cache: what a save writes\<close>









section \<open>Toggle\<close>

text \<open>
  C9. A toggle-off message leaves no element with a flag span, a shimmer span or a
  \<^verbatim>\<open>data-flag-added\<close> attribute; the elements keep everything else, and of the
  script's state only the document and the flag \<^verbatim>\<open>extensionEnabled\<close> (set to false by
  the message) change: the location cache, the in-flight set, the request queue, the
  timers and the counters are the same.
\<close>

theorem toggle_off_strips_markers_only:
  "(\<forall>e \<in> set (document (onMessage ''extensionToggle'' False s)).
       \<not> twitterFlag e \<and> \<not> twitterFlagShimmer e \<and> flagAdded e = None)
   \<and> map extractUsername (document (onMessage ''extensionToggle'' False s))
       = map extractUsername (document s)
   \<and> map userNameContainer (document (onMessage ''extensionToggle'' False s))
       = map userNameContainer (document s)
   \<and> (onMessage ''extensionToggle'' False s)
        \<lparr>document := document s, extensionEnabled := extensionEnabled s\<rparr> = s
   \<and> \<not> extensionEnabled (onMessage ''extensionToggle'' False s)"
  by (simp add: onMessage_def removeAllFlags_def Let_def comp_def)


theorem toggle_off_strips_markers_only_witness:
  "document (onMessage ''extensionToggle'' False
      ((initial 1000 None None
          [(card ''alice'')\<lparr>flagAdded := Some FlagTrue, twitterFlag := True\<rparr>,
           (card ''bob'')\<lparr>flagAdded := Some Processing, twitterFlagShimmer := True\<rparr>])
       \<lparr>locationCache := [(''alice'', Some ''France'')], processingUsernames := {''bob''}\<rparr>))
     = [card ''alice'', card ''bob'']
   \<and> locationCache (onMessage ''extensionToggle'' False
      ((initial 1000 None None
          [(card ''alice'')\<lparr>flagAdded := Some FlagTrue, twitterFlag := True\<rparr>,
           (card ''bob'')\<lparr>flagAdded := Some Processing, twitterFlagShimmer := True\<rparr>])
       \<lparr>locationCache := [(''alice'', Some ''France'')], processingUsernames := {''bob''}\<rparr>))
     = [(''alice'', Some ''France'')]
   \<and> processingUsernames (onMessage ''extensionToggle'' False
      ((initial 1000 None None
          [(card ''alice'')\<lparr>flagAdded := Some FlagTrue, twitterFlag := True\<rparr>,
           (card ''bob'')\<lparr>flagAdded := Some Processing, twitterFlagShimmer := True\<rparr>])
       \<lparr>locationCache := [(''alice'', Some ''France'')], processingUsernames := {''bob''}\<rparr>))
     = {''bob''}"
  using toggle_off_strips_markers_only
          [of "(initial 1000 None None
          [(card ''alice'')\<lparr>flagAdded := Some FlagTrue, twitterFlag := True\<rparr>,
           (card ''bob'')\<lparr>flagAdded := Some Processing, twitterFlagShimmer := True\<rparr>])
       \<lparr>locationCache := [(''alice'', Some ''France'')], processingUsernames := {''bob''}\<rparr>"]
  by (simp add: onMessage_def removeAllFlags_def initial_def card_def)

section \<open>Page bridge: every promise resolves\<close>

text \<open>
  A pending bridge promise is \<open>armed\<close> when the history holds its post at some time
  \<open>t\<close> and its timer is pending with due time \<open>t\<close> + 10000.
\<close>

definition armed :: "state \<Rightarrow> bridge_request \<Rightarrow> bool" where
  "armed s b =
     (\<exists>t. (t, b_screenName b, requestId b) \<in> set (posted s)
          \<and> (t + 10000, BridgeTimeout (requestId b)) \<in> set (timers s))"

definition bridgeInvBut :: "nat set \<Rightarrow> state \<Rightarrow> bool" where
  "bridgeInvBut X s \<longleftrightarrow>
     distinct (map requestId (listeners s))
     \<and> (\<forall>b \<in> set (listeners s).
           requestId b < nextRequestId s \<and> (requestId b \<notin> X \<longrightarrow> armed s b))"

definition bridgeInv :: "state \<Rightarrow> bool" where
  "bridgeInv s = bridgeInvBut {} s"

lemma bridgeInvBut_frame:
  assumes "bridgeInvBut X s"
    and "listeners s' = listeners s" "nextRequestId s' = nextRequestId s"
    and "posted s' = posted s" "set (timers s) \<subseteq> set (timers s')"
  shows "bridgeInvBut X s'"
proof -
  have "armed s b \<Longrightarrow> armed s' b" for b
    using assms(2-) by (auto simp: armed_def)
  with assms show ?thesis
    by (simp add: bridgeInvBut_def)
qed

lemma bridgeInvBut_setTimeout: "bridgeInvBut X s \<Longrightarrow> bridgeInvBut X (setTimeout k d s)"
  by (erule bridgeInvBut_frame) (auto simp: setTimeout_def)

lemma bridgeInvBut_makeLocationRequest:
  "bridgeInvBut X s \<Longrightarrow> bridgeInvBut X (makeLocationRequest name w s)"
proof -
  assume a: "bridgeInvBut X s"
  let ?s' = "makeLocationRequest name w s"
  let ?b = "\<lparr>requestId = nextRequestId s, b_screenName = name, b_resolve = w\<rparr>"
  have l: "listeners ?s' = listeners s @ [?b]" "nextRequestId ?s' = Suc (nextRequestId s)"
      "posted ?s' = (clock s, name, nextRequestId s) # posted s"
      "timers ?s' = timers s @ [(clock s + 10000, BridgeTimeout (nextRequestId s))]"
    by (simp_all add: makeLocationRequest_def setTimeout_def Let_def)
  have old: "armed s b \<Longrightarrow> armed ?s' b" for b
    by (auto simp: armed_def l)
  have new: "armed ?s' ?b"
    by (auto simp: armed_def l)
  have d: "nextRequestId s \<notin> requestId ` set (listeners s)"
    using a by (auto simp: bridgeInvBut_def)
  show ?thesis
    using a old new d by (auto simp: bridgeInvBut_def l less_Suc_eq)
qed

lemma bridgeInvBut_send: "bridgeInvBut X s \<Longrightarrow> bridgeInvBut X (send r s)"
  unfolding send_def
  by (rule bridgeInvBut_makeLocationRequest) (erule bridgeInvBut_frame, simp_all)

lemma bridgeInvBut_processLoop: "bridgeInvBut X s \<Longrightarrow> bridgeInvBut X (processLoop s)"
proof (induction s rule: processLoop.induct)
  case (1 s)
  show ?case
  proof (cases "requestQueue s \<noteq> [] \<and> activeRequests s < MAX_CONCURRENT_REQUESTS
                \<and> \<not> clock s - lastRequestTime s < MIN_REQUEST_INTERVAL")
    case True
    then obtain r rest where q: "requestQueue s = r # rest"
      by (cases "requestQueue s") auto
    have "bridgeInvBut X (s\<lparr>requestQueue := rest\<rparr>)"
      by (rule bridgeInvBut_frame [OF "1.prems"]) simp_all
    then have "bridgeInvBut X (send r (s\<lparr>requestQueue := rest\<rparr>))"
      by (rule bridgeInvBut_send)
    with "1.IH" [OF _ refl refl _ q] True
    have "bridgeInvBut X (processLoop (send r (s\<lparr>requestQueue := rest\<rparr>)))"
      by simp
    with True q show ?thesis
      by (subst processLoop.simps) (simp add: Let_def)
  next
    case False
    have "bridgeInvBut X (s\<lparr>isProcessingQueue := False\<rparr>)"
      by (rule bridgeInvBut_frame [OF "1.prems"]) simp_all
    with False "1.prems" show ?thesis
      by (subst processLoop.simps) (auto simp: Let_def bridgeInvBut_setTimeout)
  qed
qed

lemma bridgeInvBut_afterLoopDelay: "bridgeInvBut X s \<Longrightarrow> bridgeInvBut X (afterLoopDelay s)"
proof -
  assume a: "bridgeInvBut X s"
  have "\<And>rest. bridgeInvBut X (s\<lparr>requestQueue := rest\<rparr>)"
    by (rule bridgeInvBut_frame [OF a]) simp_all
  with a show ?thesis
    by (auto simp: afterLoopDelay_def split: list.splits
        intro!: bridgeInvBut_processLoop bridgeInvBut_send)
qed

lemma bridgeInvBut_processRequestQueue:
  "bridgeInvBut X s \<Longrightarrow> bridgeInvBut X (processRequestQueue s)"
proof -
  assume a: "bridgeInvBut X s"
  have "\<And>v. bridgeInvBut X (s\<lparr>rateLimitResetTime := v, isProcessingQueue := True\<rparr>)"
       "bridgeInvBut X (s\<lparr>isProcessingQueue := True\<rparr>)"
    by (rule bridgeInvBut_frame [OF a]; simp)+
  with a show ?thesis
    by (simp add: processRequestQueue_def Let_def bridgeInvBut_setTimeout bridgeInvBut_processLoop)
qed


lemma distinct_map_remove1: "distinct (map f xs) \<Longrightarrow> distinct (map f (remove1 x xs))"
  by (induction xs) (auto dest: set_remove1_subset [THEN subsetD])

lemma distinct_map_remove1_notin:
  assumes "distinct (map f xs)" "y \<in> set (remove1 x xs)" "x \<in> set xs"
  shows "f y \<noteq> f x"
proof -
  from assms(1) have dx: "distinct xs" and inj: "inj_on f (set xs)"
    by (simp_all add: distinct_map)
  from assms(2) dx have "y \<in> set xs" "y \<noteq> x"
    by (simp_all add: set_remove1_eq)
  with inj assms(3) show ?thesis
    by (auto dest: inj_onD)
qed

lemma find_by_key:
  "distinct (map f xs) \<Longrightarrow> x \<in> set xs \<Longrightarrow> find (\<lambda>r. f r = f x) xs = Some x"
  by (induction xs) auto

lemma find_by_key2:
  "distinct (map f xs) \<Longrightarrow> x \<in> set xs \<Longrightarrow> find (\<lambda>r. g r = g x \<and> f r = f x) xs = Some x"
  by (induction xs) auto

lemma bridgeInvBut_settle:
  assumes "bridgeInvBut X s" "r \<in> set (listeners s)"
  shows "bridgeInvBut (X - {requestId r}) (settle r v s)"
proof -
  let ?s' = "settle r v s"
  have l: "listeners ?s' = remove1 r (listeners s)" "nextRequestId ?s' = nextRequestId s"
      "posted ?s' = posted s" "set (timers s) \<subseteq> set (timers ?s')"
    by (auto simp: settle_def setTimeout_def)
  have ar: "armed s b \<Longrightarrow> armed ?s' b" for b
    using l by (auto simp: armed_def)
  have d: "distinct (map requestId (listeners s))"
    using assms(1) by (simp add: bridgeInvBut_def)
  have "requestId b < nextRequestId ?s' \<and> (requestId b \<notin> X - {requestId r} \<longrightarrow> armed ?s' b)"
    if "b \<in> set (listeners ?s')" for b
  proof -
    from that have m: "b \<in> set (remove1 r (listeners s))"
      by (simp only: l)
    then have b: "b \<in> set (listeners s)"
      using set_remove1_subset [of r "listeners s"] by blast
    have ne: "requestId b \<noteq> requestId r"
      using distinct_map_remove1_notin [OF d m assms(2)] .
    from assms(1) b have "requestId b < nextRequestId s" "requestId b \<notin> X \<longrightarrow> armed s b"
      by (simp_all add: bridgeInvBut_def)
    with ne ar [of b] show ?thesis
      by (simp add: l)
  qed
  moreover have "distinct (map requestId (listeners ?s'))"
    using distinct_map_remove1 [OF d] by (simp only: l)
  ultimately show ?thesis
    unfolding bridgeInvBut_def by blast
qed

lemma bridgeInvBut_mono: "bridgeInvBut X s \<Longrightarrow> X \<subseteq> Y \<Longrightarrow> bridgeInvBut Y s"
  by (auto simp: bridgeInvBut_def)

lemma bridgeInv_settle: "bridgeInv s \<Longrightarrow> r \<in> set (listeners s) \<Longrightarrow> bridgeInv (settle r v s)"
  unfolding bridgeInv_def using bridgeInvBut_settle [of "{}" s r v] by simp

lemma bridgeInvBut_saveCacheEntry: "bridgeInvBut X s \<Longrightarrow> bridgeInvBut X (saveCacheEntry h l s)"
  by (erule bridgeInvBut_frame) (auto simp: saveCacheEntry_def setTimeout_def Let_def)

lemma bridgeInv_onLocationResponse:
  assumes "bridgeInv s"
  shows "bridgeInv (onLocationResponse name rid loc rl s)"
proof (cases "find (\<lambda>r. b_screenName r = name \<and> requestId r = rid) (listeners s)")
  case None
  with assms show ?thesis by (simp add: onLocationResponse_def)
next
  case (Some r)
  then have r: "r \<in> set (listeners s)"
    by (rule find_in_set)
  define s1 where "s1 = (if \<not> rl then saveCacheEntry (b_screenName r) (or_null loc) s else s)"
  have "bridgeInv s1" "r \<in> set (listeners s1)"
    using assms r bridgeInvBut_saveCacheEntry [of "{}" s]
    by (simp_all add: s1_def bridgeInv_def)
  then have "bridgeInv (settle r (or_null loc) s1)"
    by (rule bridgeInv_settle)
  with Some show ?thesis
    by (simp add: onLocationResponse_def handler_def Let_def s1_def)
qed

lemma bridgeInv_bridgeTimeout:
  assumes "bridgeInvBut {rid} s"
  shows "bridgeInv (bridgeTimeout rid s)"
proof (cases "find (\<lambda>r. requestId r = rid) (listeners s)")
  case None
  then have "\<forall>b \<in> set (listeners s). requestId b \<noteq> rid"
    by (auto simp: find_None_iff)
  with assms None show ?thesis
    by (auto simp: bridgeTimeout_def bridgeInv_def bridgeInvBut_def)
next
  case (Some r)
  then have r: "r \<in> set (listeners s)" "requestId r = rid"
    by (auto simp: find_Some_iff)
  from bridgeInvBut_settle [OF assms r(1), of None] r(2) Some show ?thesis
    by (simp add: bridgeTimeout_def bridgeInv_def)
qed

lemma bridgeInv_frame:
  assumes "bridgeInv s"
    and "listeners s' = listeners s" "nextRequestId s' = nextRequestId s"
    and "posted s' = posted s" "set (timers s) \<subseteq> set (timers s')"
  shows "bridgeInv s'"
  using assms unfolding bridgeInv_def by (rule bridgeInvBut_frame)

lemma bridgeInv_setters:
  "bridgeInv s \<Longrightarrow> bridgeInv (setFlagAdded el v s)"
  "bridgeInv s \<Longrightarrow> bridgeInv (setShimmer el b s)"
  "bridgeInv s \<Longrightarrow> bridgeInv (setTwitterFlag el b s)"
  "bridgeInv s \<Longrightarrow> bridgeInv (removeAllFlags s)"
  "bridgeInv s \<Longrightarrow> bridgeInv (saveCache s)"
  "bridgeInv s \<Longrightarrow> bridgeInv (saveDebounced s)"
  "bridgeInv s \<Longrightarrow> bridgeInv (loadCache s)"
  "bridgeInv s \<Longrightarrow> bridgeInv (loadEnabledState s)"
  "bridgeInv s \<Longrightarrow> bridgeInv (onRateLimitInfo t s)"
  "bridgeInv s \<Longrightarrow> bridgeInv (setTimeout k d s)"
  "bridgeInv s \<Longrightarrow> bridgeInv (processRequestQueue s)"
  "bridgeInv s \<Longrightarrow> bridgeInv (afterLoopDelay s)"
            apply (erule bridgeInv_frame;
      simp add: setFlagAdded_def setShimmer_def setTwitterFlag_def removeAllFlags_def
        saveCache_def saveDebounced_def loadCache_def loadEnabledState_def onRateLimitInfo_def
        Let_def split: option.splits)+
  by (simp_all add: bridgeInv_def bridgeInvBut_setTimeout bridgeInvBut_processRequestQueue
      bridgeInvBut_afterLoopDelay)

lemma bridgeInv_updates [simp]:
  "bridgeInv (s\<lparr>microtasks := m\<rparr>) = bridgeInv s"
  "bridgeInv (s\<lparr>processingUsernames := p\<rparr>) = bridgeInv s"
  "bridgeInv (s\<lparr>clock := t\<rparr>) = bridgeInv s"
  "bridgeInv (s\<lparr>extensionEnabled := e\<rparr>) = bridgeInv s"
  "bridgeInv (s\<lparr>locationCache := c\<rparr>) = bridgeInv s"
  "bridgeInv (s\<lparr>requestQueue := q\<rparr>) = bridgeInv s"
  "bridgeInv (s\<lparr>document := d\<rparr>) = bridgeInv s"
  "bridgeInv (s\<lparr>contextValid := v\<rparr>) = bridgeInv s"
  "bridgeInv (s\<lparr>pageScriptInjected := v\<rparr>) = bridgeInv s"
  "bridgeInv (s\<lparr>observing := v\<rparr>) = bridgeInv s"
  by (simp_all add: bridgeInv_def bridgeInvBut_def armed_def)

lemma bridgeInv_getUserLocation: "bridgeInv s \<Longrightarrow> bridgeInv (snd (getUserLocation name w s))"
  by (auto simp: getUserLocation_def split: option.splits intro!: bridgeInv_setters)

lemma bridgeInv_addFlagToUsername: "bridgeInv s \<Longrightarrow> bridgeInv (addFlagToUsername el name s)"
proof -
  assume a: "bridgeInv s"
  have "\<And>w w' s0. bridgeInv s0 \<Longrightarrow> bridgeInv (case getUserLocation name w s0 of
             (Returned cached, s4) \<Rightarrow>
               s4\<lparr>microtasks := microtasks s4 @ [(w', Resolved (Some cached))]\<rparr>
           | (Pending, s4) \<Rightarrow> s4)"
    using bridgeInv_getUserLocation [of _ name]
    by (auto split: prod.splits lookup.splits) (metis snd_conv)+
  then show ?thesis
    using a by (simp add: addFlagToUsername_def Let_def bridgeInv_setters)
qed

lemma bridgeInv_redrive: "bridgeInv s \<Longrightarrow> bridgeInv (redrive name s)"
  unfolding redrive_def
  by (rule invariant_fold [where P = bridgeInv]) (auto intro: bridgeInv_addFlagToUsername)

lemma bridgeInv_processUsernames: "bridgeInv s \<Longrightarrow> bridgeInv (processUsernames s)"
  unfolding processUsernames_def
  by (auto intro!: invariant_fold [where P = bridgeInv] bridgeInv_addFlagToUsername
      split: option.splits)

lemma bridgeInv_afterLookup: "bridgeInv s \<Longrightarrow> bridgeInv (afterLookup g w r s)"
  by (simp add: afterLookup_def Let_def bridgeInv_setters bridgeInv_redrive
      split: settled.splits option.splits)

lemma bridgeInv_drain: "bridgeInv s \<Longrightarrow> bridgeInv (drain g s)"
proof (induction g s rule: drain.induct)
  case (1 g s)
  show ?case
  proof (cases "microtasks s")
    case Nil
    with "1.prems" show ?thesis by (subst drain.simps) simp
  next
    case (Cons a rest)
    obtain w r where a: "a = (w, r)" by (cases a)
    have "bridgeInv (afterLookup g w r (s\<lparr>microtasks := rest\<rparr>))"
      using "1.prems" by (simp add: bridgeInv_afterLookup)
    with "1.IH" [OF Cons a [symmetric]] Cons a show ?thesis
      by (subst drain.simps) simp
  qed
qed


lemma mem_remove_nth:
  assumes "i < length xs" "x \<in> set xs" "x \<noteq> xs ! i"
  shows "x \<in> set (take i xs @ drop (Suc i) xs)"
proof -
  have "set xs = set (take i xs @ xs ! i # drop (Suc i) xs)"
    using id_take_nth_drop [OF assms(1)] by (rule arg_cong)
  with assms(2,3) show ?thesis by auto
qed

lemma bridgeInvBut_remove_timer:
  assumes "bridgeInv s" "i < length (timers s)"
  shows "bridgeInvBut {rid. snd (timers s ! i) = BridgeTimeout rid}
           (s\<lparr>timers := take i (timers s) @ drop (Suc i) (timers s)\<rparr>)"
proof -
  let ?s' = "s\<lparr>timers := take i (timers s) @ drop (Suc i) (timers s)\<rparr>"
  have "armed ?s' b" if "armed s b" "snd (timers s ! i) \<noteq> BridgeTimeout (requestId b)" for b
  proof -
    from that(1) obtain t where t: "(t, b_screenName b, requestId b) \<in> set (posted s)"
        "(t + 10000, BridgeTimeout (requestId b)) \<in> set (timers s)"
      by (auto simp: armed_def)
    from that(2) have "(t + 10000, BridgeTimeout (requestId b)) \<noteq> timers s ! i"
      by (metis snd_conv)
    with mem_remove_nth [OF assms(2) t(2)] t(1) show ?thesis
      by (auto simp: armed_def)
  qed
  with assms(1) show ?thesis
    by (auto simp: bridgeInv_def bridgeInvBut_def)
qed

lemma bridgeInv_Fire:
  assumes "bridgeInv s" "i < length (timers s)"
  shows "bridgeInv (fire (snd (timers s ! i))
                      (s\<lparr>timers := take i (timers s) @ drop (Suc i) (timers s)\<rparr>))"
proof -
  let ?s' = "s\<lparr>timers := take i (timers s) @ drop (Suc i) (timers s)\<rparr>"
  note r = bridgeInvBut_remove_timer [OF assms]
  show ?thesis
  proof (cases "snd (timers s ! i)")
    case (BridgeTimeout rid)
    with r have "bridgeInvBut {rid} ?s'" by simp
    then have "bridgeInv (bridgeTimeout rid ?s')"
      by (rule bridgeInv_bridgeTimeout)
    with BridgeTimeout show ?thesis by (simp add: fire_def)
  qed (use r in \<open>simp_all add: fire_def bridgeInv_def [symmetric] bridgeInv_setters
         bridgeInv_processUsernames\<close>, simp add: afterWaiting_def bridgeInv_setters)
qed

lemma bridgeInv_react:
  assumes "bridgeInv s" "react ev s = Some s'"
  shows "bridgeInv s'"
  using assms
  by (cases ev)
     (auto simp: react_def onMessage_def onDomAdded_def onUrlChanged_def Let_def
        bridgeInv_setters bridgeInv_onLocationResponse bridgeInv_Fire split: if_splits)

lemma bridgeInv_step:
  assumes "bridgeInv s" "step g e s = Some s'"
  shows "bridgeInv s'"
  using assms
  by (cases e) (auto simp: step_def split: if_splits dest!: bridgeInv_react [rotated] intro: bridgeInv_drain)

lemma bridgeInv_run: "bridgeInv s \<Longrightarrow> run g es s = Some s' \<Longrightarrow> bridgeInv s'"
  by (induction es arbitrary: s) (auto split: option.splits dest: bridgeInv_step)

lemma bridgeInv_init: "bridgeInv (init (initial t tog stored doc))"
proof -
  have "bridgeInv (initial t tog stored doc)"
    by (simp add: bridgeInv_def bridgeInvBut_def initial_def)
  then show ?thesis
    by (simp add: init_def Let_def bridgeInv_setters)
qed

text \<open>
  C8. After any sequence of events, every pending promise of
  \<^verbatim>\<open>makeLocationRequest\<close> has its 10-second timer pending, due exactly 10000 ms after
  the request was posted (no code cancels a timer). When the callback of that timer runs
  while the promise is still pending, that is, no correlated response has arrived, the
  promise resolves with \<^verbatim>\<open>null\<close>; a correlated response resolves it with
  \<^verbatim>\<open>location || null\<close>. Either way the promise is resolved, never rejected, and the
  request is no longer pending.
\<close>

theorem bridge_promise_always_resolves:
  assumes "run getCountryFlag evs (init (initial t0 tog stored doc)) = Some s"
    and "b \<in> set (listeners s)"
  shows "(\<exists>t. (t, b_screenName b, requestId b) \<in> set (posted s)
              \<and> (t + 10000, BridgeTimeout (requestId b)) \<in> set (timers s))
         \<and> microtasks (bridgeTimeout (requestId b) s) = microtasks s @ [(b_resolve b, Resolved None)]
         \<and> b \<notin> set (listeners (bridgeTimeout (requestId b) s))
         \<and> microtasks (onLocationResponse (b_screenName b) (requestId b) loc rl s)
             = microtasks s @ [(b_resolve b, Resolved (or_null loc))]
         \<and> b \<notin> set (listeners (onLocationResponse (b_screenName b) (requestId b) loc rl s))"
proof -
  have inv: "bridgeInv s"
    using bridgeInv_run [OF bridgeInv_init assms(1)] .
  then have d: "distinct (map requestId (listeners s))" and a: "armed s b"
    using assms(2) by (auto simp: bridgeInv_def bridgeInvBut_def)
  have dl: "distinct (listeners s)"
    using d by (simp add: distinct_map)
  have f1: "find (\<lambda>r. requestId r = requestId b) (listeners s) = Some b"
    using d assms(2) by (rule find_by_key)
  have f2: "find (\<lambda>r. b_screenName r = b_screenName b \<and> requestId r = requestId b) (listeners s) = Some b"
    using d assms(2) by (rule find_by_key2)
  have m: "microtasks (saveCacheEntry h l s) = microtasks s"
       "listeners (saveCacheEntry h l s) = listeners s" for h l
    by (simp_all add: saveCacheEntry_def setTimeout_def Let_def)
  show ?thesis
    using a f1 f2 dl m
    by (auto simp: armed_def bridgeTimeout_def onLocationResponse_def handler_def settle_def
        setTimeout_def Let_def)
qed


theorem bridge_promise_always_resolves_witness:
  "map_option listeners
     (run flagOf [(1002000, Fire 0)] (init (initial 1000000 None None [card ''alice''])))
   = Some [\<lparr>requestId = 0, b_screenName = ''alice'',
             b_resolve = \<lparr>usernameElement = 0, screenName = ''alice'', shimmerInserted = True\<rparr>\<rparr>]
   \<and> map_option (\<lambda>s. microtasks (bridgeTimeout 0 s))
     (run flagOf [(1002000, Fire 0)] (init (initial 1000000 None None [card ''alice''])))
   = Some [(\<lparr>usernameElement = 0, screenName = ''alice'', shimmerInserted = True\<rparr>,
            Resolved None)]"
proof -
  let ?b = "\<lparr>requestId = 0, b_screenName = ''alice'',
             b_resolve = \<lparr>usernameElement = 0, screenName = ''alice'', shimmerInserted = True\<rparr>\<rparr>"
  obtain s where r: "run flagOf [(1002000, Fire 0)]
        (init (initial 1000000 None None [card ''alice''])) = Some s"
    and l: "listeners s = [?b]" and m: "microtasks s = []"
    using firstScan_run by auto
  have "?b \<in> set (listeners s)"
    using l by simp
  from bridge_promise_always_resolves [OF r this]
  have "microtasks (bridgeTimeout 0 s) = microtasks s @ [(b_resolve ?b, Resolved None)]"
    by simp
  with r l m show ?thesis by simp
qed

section \<open>In-flight set\<close>

text \<open>
  The \<open>waiters\<close> of a state are the continuations of \<^verbatim>\<open>addFlagToUsername\<close> whose
  lookup is outstanding: queued, pending at the bridge, or settled and about to run.
\<close>

definition waiters :: "state \<Rightarrow> waiter set" where
  "waiters s = q_resolve ` set (requestQueue s) \<union> b_resolve ` set (listeners s)
               \<union> fst ` set (microtasks s)"



lemma waiters_setTimeout [simp]: "waiters (setTimeout k d s) = waiters s"
  by (simp add: waiters_def setTimeout_def)

lemma processingUsernames_setTimeout [simp]:
  "processingUsernames (setTimeout k d s) = processingUsernames s"
  by (simp add: setTimeout_def)

lemma waiters_updates [simp]:
  "waiters (s\<lparr>isProcessingQueue := b\<rparr>) = waiters s"
  "waiters (s\<lparr>rateLimitResetTime := v\<rparr>) = waiters s"
  "waiters (s\<lparr>locationCache := c\<rparr>) = waiters s"
  "waiters (s\<lparr>clock := t\<rparr>) = waiters s"
  "waiters (s\<lparr>timers := ts\<rparr>) = waiters s"
  "waiters (s\<lparr>document := d\<rparr>) = waiters s"
  "waiters (s\<lparr>extensionEnabled := b\<rparr>) = waiters s"
  "waiters (s\<lparr>contextValid := b\<rparr>) = waiters s"
  "waiters (s\<lparr>processingUsernames := p\<rparr>) = waiters s"
  by (simp_all add: waiters_def)

lemma waiters_enqueue [simp]:
  "waiters (s\<lparr>requestQueue := requestQueue s @ [\<lparr>q_screenName = name, q_resolve = w\<rparr>]\<rparr>)
     = insert w (waiters s)"
  "waiters (s\<lparr>locationCache := c,
              requestQueue := requestQueue s @ [\<lparr>q_screenName = name, q_resolve = w\<rparr>]\<rparr>)
     = insert w (waiters s)"
  by (auto simp: waiters_def)

lemma waiters_send:
  "requestQueue s = r # rest \<Longrightarrow> waiters (send r (s\<lparr>requestQueue := rest\<rparr>)) = waiters s"
  by (auto simp: waiters_def send_def makeLocationRequest_def setTimeout_def Let_def)

lemma waiters_processLoop [simp]: "waiters (processLoop s) = waiters s"
proof (induction s rule: processLoop.induct)
  case (1 s)
  show ?case
  proof (cases "requestQueue s \<noteq> [] \<and> activeRequests s < MAX_CONCURRENT_REQUESTS
                \<and> \<not> clock s - lastRequestTime s < MIN_REQUEST_INTERVAL")
    case True
    then obtain r rest where q: "requestQueue s = r # rest"
      by (cases "requestQueue s") auto
    from "1.IH" [OF _ refl refl _ q] True
    have "waiters (processLoop (send r (s\<lparr>requestQueue := rest\<rparr>))) = waiters s"
      by (simp add: waiters_send [OF q])
    with True q show ?thesis
      by (subst processLoop.simps) (simp add: Let_def)
  next
    case False
    then show ?thesis
      by (subst processLoop.simps) (auto simp: Let_def)
  qed
qed

lemma waiters_afterLoopDelay [simp]: "waiters (afterLoopDelay s) = waiters s"
  by (simp add: afterLoopDelay_def waiters_send split: list.splits)

lemma processingUsernames_afterLoopDelay [simp]:
  "processingUsernames (afterLoopDelay s) = processingUsernames s"
  by (simp add: afterLoopDelay_def send_def makeLocationRequest_def setTimeout_def Let_def
      split: list.splits)

lemma waiters_processRequestQueue [simp]: "waiters (processRequestQueue s) = waiters s"
  by (simp add: processRequestQueue_def Let_def)


lemma waiters_setters [simp]:
  "waiters (setFlagAdded el v s) = waiters s"
  "waiters (setShimmer el b s) = waiters s"
  "waiters (setTwitterFlag el b s) = waiters s"
  by (simp_all add: waiters_def setFlagAdded_def setShimmer_def setTwitterFlag_def)

lemma processingUsernames_setters [simp]:
  "processingUsernames (setFlagAdded el v s) = processingUsernames s"
  "processingUsernames (setShimmer el b s) = processingUsernames s"
  "processingUsernames (setTwitterFlag el b s) = processingUsernames s"
  by (simp_all add: setFlagAdded_def setShimmer_def setTwitterFlag_def)




















lemma microtasks_drain [simp]: "microtasks (drain g s) = []"
proof (induction g s rule: drain.induct)
  case (1 g s)
  show ?case
  proof (cases "microtasks s")
    case Nil
    then show ?thesis by (subst drain.simps) simp
  next
    case (Cons a rest)
    obtain w r where a: "a = (w, r)" by (cases a)
    with "1.IH" [OF Cons a [symmetric]] Cons show ?thesis
      by (subst drain.simps) simp
  qed
qed






section \<open>Rate-limited responses\<close>

definition rateLimitedWithLocation :: "(int \<times> event) list" where
  "rateLimitedWithLocation =
     [(1002000, Fire 0), (1003000, LocationResponse ''alice'' 0 (Some ''France'') True)]"

text \<open>
  C6, as stated, fails: a response with \<^verbatim>\<open>isRateLimited: true\<close> that also carries the
  location \<^verbatim>\<open>France\<close> is not cached, but the element awaiting the handle gets its flag
  and ends in state \<^verbatim>\<open>true\<close>, not \<^verbatim>\<open>failed\<close>.
\<close>

theorem rate_limited_response_decorated_counterexample:
  "map_option (map flagAdded \<circ> document)
     (run flagOf rateLimitedWithLocation (init (initial 1000000 None None [card ''alice''])))
   = Some [Some FlagTrue]
   \<and> map_option locationCache
     (run flagOf rateLimitedWithLocation (init (initial 1000000 None None [card ''alice''])))
   = Some []"
  by code_simp

lemma drain_single:
  assumes "microtasks s = [(w, r)]"
  shows "drain g s = (let s' = afterLookup g w r (s\<lparr>microtasks := []\<rparr>)
                      in if microtasks s' = [] then s' else drain g s')"
  using assms by (subst drain.simps) (simp add: Let_def drain.simps [of g "afterLookup g w r (s\<lparr>microtasks := []\<rparr>)"] split: list.splits)

lemma afterLookup_no_location:
  assumes "or_null loc = None"
  shows "afterLookup g w (Resolved loc) s =
           (let s1 = (if shimmerInserted w \<and> twitterFlagShimmer (document s ! usernameElement w)
                      then setShimmer (usernameElement w) False s else s);
                s2 = setFlagAdded (usernameElement w) (Some Failed) s1
            in s2\<lparr>processingUsernames := processingUsernames s2 - {screenName w}\<rparr>)"
  using assms by (simp add: afterLookup_def Let_def)

text \<open>
  C6, amended. For every bridge response carrying \<^verbatim>\<open>isRateLimited = true\<close>, the
  handler writes no cache entry: the in-memory cache and the stored snapshot are
  unchanged and no save is scheduled. When such a response carries no location
  (\<^verbatim>\<open>null\<close>, absent or empty), the element awaiting the handle ends the event in state
  \<^verbatim>\<open>failed\<close>, which the scan pass takes up again.
\<close>

theorem rate_limited_response_not_cached:
  "locationCache (onLocationResponse name rid loc True s) = locationCache s
   \<and> storageCache (onLocationResponse name rid loc True s) = storageCache s
   \<and> saveCacheTimeout (onLocationResponse name rid loc True s) = saveCacheTimeout s
   \<and> (microtasks s = [] \<longrightarrow> clock s \<le> t \<longrightarrow>
        find (\<lambda>r. b_screenName r = name \<and> requestId r = rid) (listeners s) = Some r \<longrightarrow>
        usernameElement (b_resolve r) < length (document s) \<longrightarrow>
        or_null loc = None \<longrightarrow>
        (\<exists>s'. step getCountryFlag (t, LocationResponse name rid loc True) s = Some s'
              \<and> locationCache s' = locationCache s \<and> storageCache s' = storageCache s
              \<and> flagAdded (document s' ! usernameElement (b_resolve r)) = Some Failed
              \<and> eligible (flagAdded (document s' ! usernameElement (b_resolve r)))))"
proof -
  have h: "onLocationResponse name rid loc True s =
      (case find (\<lambda>r. b_screenName r = name \<and> requestId r = rid) (listeners s) of
         None \<Rightarrow> s | Some r \<Rightarrow> settle r (or_null loc) s)" for s
    by (simp add: onLocationResponse_def handler_def split: option.splits)
  have a: "locationCache (onLocationResponse name rid loc True s) = locationCache s
   \<and> storageCache (onLocationResponse name rid loc True s) = storageCache s
   \<and> saveCacheTimeout (onLocationResponse name rid loc True s) = saveCacheTimeout s"
    by (simp add: h settle_def setTimeout_def split: option.splits)
  have b: "\<exists>s'. step getCountryFlag (t, LocationResponse name rid loc True) s = Some s'
              \<and> locationCache s' = locationCache s \<and> storageCache s' = storageCache s
              \<and> flagAdded (document s' ! usernameElement (b_resolve r)) = Some Failed
              \<and> eligible (flagAdded (document s' ! usernameElement (b_resolve r)))"
    if m: "microtasks s = []" and t: "clock s \<le> t"
      and f: "find (\<lambda>r. b_screenName r = name \<and> requestId r = rid) (listeners s) = Some r"
      and el: "usernameElement (b_resolve r) < length (document s)"
      and n: "or_null loc = None"
  proof -
    let ?s1 = "settle r None (s\<lparr>clock := t\<rparr>)"
    let ?w = "b_resolve r"
    have r1: "react (LocationResponse name rid loc True) (s\<lparr>clock := t\<rparr>) = Some ?s1"
      using f n by (simp add: react_def h)
    have m1: "microtasks ?s1 = [(?w, Resolved None)]"
      using m by (simp add: settle_def setTimeout_def)
    let ?s2 = "afterLookup getCountryFlag ?w (Resolved None) (?s1\<lparr>microtasks := []\<rparr>)"
    have n0: "or_null None = None" by (simp add: or_null_def)
    have m2: "microtasks ?s2 = []"
      by (simp add: afterLookup_no_location [OF n0] Let_def setFlagAdded_def setShimmer_def)
    have d: "drain getCountryFlag ?s1 = ?s2"
      using drain_single [OF m1, of getCountryFlag] m2 by (simp add: Let_def)
    have st: "step getCountryFlag (t, LocationResponse name rid loc True) s = Some ?s2"
      using t r1 d by (simp add: step_def)
    have c: "locationCache ?s2 = locationCache s" "storageCache ?s2 = storageCache s"
      by (simp_all add: afterLookup_no_location [OF n0] Let_def setFlagAdded_def setShimmer_def
          settle_def setTimeout_def)
    have dl: "length (document (?s1\<lparr>microtasks := []\<rparr>)) = length (document s)"
      by (simp add: settle_def setTimeout_def)
    have fl: "flagAdded (document ?s2 ! usernameElement ?w) = Some Failed"
      using el dl
      by (simp add: afterLookup_no_location [OF n0] Let_def setFlagAdded_def setShimmer_def)
    from st c fl show ?thesis
      by (simp add: eligible_def)
  qed
  from a b show ?thesis by blast
qed

theorem rate_limited_response_not_cached_witness:
  "\<exists>s s'. run flagOf [(1002000, Fire 0)] (init (initial 1000000 None None [card ''alice'']))
             = Some s
     \<and> step flagOf (1003000, LocationResponse ''alice'' 0 None True) s = Some s'
     \<and> locationCache s' = locationCache s
     \<and> flagAdded (document s' ! 0) = Some Failed"
proof -
  let ?b = "\<lparr>requestId = 0, b_screenName = ''alice'',
             b_resolve = \<lparr>usernameElement = 0, screenName = ''alice'', shimmerInserted = True\<rparr>\<rparr>"
  obtain s where r: "run flagOf [(1002000, Fire 0)]
        (init (initial 1000000 None None [card ''alice''])) = Some s"
    and l: "listeners s = [?b]" and m: "microtasks s = []" and c: "clock s = 1002000"
    and d: "length (document s) = 1"
    using firstScan_run by auto
  have f: "find (\<lambda>r. b_screenName r = ''alice'' \<and> requestId r = 0) (listeners s) = Some ?b"
    using l by simp
  have "clock s \<le> 1003000" "usernameElement (b_resolve ?b) < length (document s)"
       "or_null None = None"
    using c d by (simp_all add: or_null_def)
  with rate_limited_response_not_cached [of "''alice''" 0 None s 1003000 ?b flagOf] m f
  obtain s' where "step flagOf (1003000, LocationResponse ''alice'' 0 None True) s = Some s'"
      "locationCache s' = locationCache s" "flagAdded (document s' ! 0) = Some Failed"
    by auto
  with r show ?thesis by blast
qed

section \<open>Duplicate elements of one handle\<close>

text \<open>
  While a handle is in \<^verbatim>\<open>processingUsernames\<close>, \<^verbatim>\<open>addFlagToUsername\<close> for that
  handle only sets the 500 ms timer of the duplicate branch. The loop over the waiting
  elements runs inside the \<^verbatim>\<open>try\<close> block, before the \<^verbatim>\<open>finally\<close> block removes
  the handle, so it changes no element and starts no lookup.
\<close>

lemma addFlagToUsername_while_in_flight:
  assumes "name \<in> processingUsernames s"
  shows "document (addFlagToUsername el name s) = document s
         \<and> processingUsernames (addFlagToUsername el name s) = processingUsernames s
         \<and> requestQueue (addFlagToUsername el name s) = requestQueue s
         \<and> microtasks (addFlagToUsername el name s) = microtasks s
         \<and> posted (addFlagToUsername el name s) = posted s"
  using assms by (simp add: addFlagToUsername_def setTimeout_def)

lemma redrive_while_in_flight:
  assumes "name \<in> processingUsernames s"
  shows "document (redrive name s) = document s
         \<and> processingUsernames (redrive name s) = processingUsernames s
         \<and> requestQueue (redrive name s) = requestQueue s
         \<and> microtasks (redrive name s) = microtasks s
         \<and> posted (redrive name s) = posted s"
proof -
  have "name \<in> processingUsernames t \<Longrightarrow>
        document (fold (\<lambda>el s'. if extractUsername (document s' ! el) = Some name
                    then addFlagToUsername el name s' else s') xs t) = document t
      \<and> processingUsernames (fold (\<lambda>el s'. if extractUsername (document s' ! el) = Some name
                    then addFlagToUsername el name s' else s') xs t) = processingUsernames t
      \<and> requestQueue (fold (\<lambda>el s'. if extractUsername (document s' ! el) = Some name
                    then addFlagToUsername el name s' else s') xs t) = requestQueue t
      \<and> microtasks (fold (\<lambda>el s'. if extractUsername (document s' ! el) = Some name
                    then addFlagToUsername el name s' else s') xs t) = microtasks t
      \<and> posted (fold (\<lambda>el s'. if extractUsername (document s' ! el) = Some name
                    then addFlagToUsername el name s' else s') xs t) = posted t" for xs t
  proof (induction xs arbitrary: t)
    case Nil
    then show ?case by simp
  next
    case (Cons x xs)
    let ?t' = "if extractUsername (document t ! x) = Some name
               then addFlagToUsername x name t else t"
    have t': "document ?t' = document t" "processingUsernames ?t' = processingUsernames t"
        "requestQueue ?t' = requestQueue t" "microtasks ?t' = microtasks t" "posted ?t' = posted t"
      using addFlagToUsername_while_in_flight [OF Cons.prems, of x] by simp_all
    then have "name \<in> processingUsernames ?t'"
      using Cons.prems by simp
    from Cons.IH [OF this] t' show ?case
      by simp
  qed
  from this [OF assms] show ?thesis
    by (simp add: redrive_def)
qed

text \<open>
  Two elements of the handle \<^verbatim>\<open>alice\<close>, not cached. The scan starts the lookup for
  the first and sends the second into the 500 ms wait, after which it is \<^verbatim>\<open>waiting\<close>.
  The response arrives, the first element gets its flag, and the loop over the waiting
  elements calls \<^verbatim>\<open>addFlagToUsername\<close> for the second while \<^verbatim>\<open>alice\<close> is still in
  \<^verbatim>\<open>processingUsernames\<close> (the \<^verbatim>\<open>finally\<close> block has not run yet): the call takes the
  duplicate branch again and the element is \<^verbatim>\<open>waiting\<close> again 500 ms later. The
  scans that the script's own insertions trigger find nothing to do. All timers then
  run out and a scan after a navigation passes.
\<close>

definition duplicateTrace :: "(int \<times> event) list" where
  "duplicateTrace =
     [(1002000, Fire 0), (1002000, DomAdded []),
      (1002500, Fire 2), (1002500, Fire 2),
      (1003000, LocationResponse ''alice'' 0 (Some ''France'') False), (1003000, DomAdded []),
      (1003200, Fire 3), (1003500, Fire 3), (1003500, Fire 3),
      (1008000, Fire 2), (1012000, Fire 1),
      (1020000, UrlChanged), (1022000, Fire 1)]"

text \<open>
  C2, at this input: one request was posted, the first element is decorated, and the
  second element is still \<^verbatim>\<open>waiting\<close> without a flag; no handle is in flight, no
  request is queued or pending and no timer other than the periodic flush is left, so
  nothing will resolve it, and the scan pass skips \<^verbatim>\<open>waiting\<close> elements.
\<close>

theorem waiting_duplicate_never_resolved:
  "map_option (\<lambda>s. (map flagAdded (document s), map twitterFlag (document s),
                     processingUsernames s, map snd (timers s),
                     length (requestQueue s), length (listeners s), length (microtasks s),
                     map (fst \<circ> snd) (posted s)))
     (run flagOf duplicateTrace (init (initial 1000000 None None [card ''alice'', card ''alice''])))
   = Some ([Some FlagTrue, Some Waiting], [True, False], {}, [FlushInterval], 0, 0, 0, [''alice''])"
  by code_simp


end
